theory Spec2Isabelle
  imports Complex_Main "HOL-Library.Log_Nat"
begin

section \<open>Tensors\<close>

text \<open>
  A tensor is its shape together with its entries, read by index.  The rank is part of the
  type: the sampling masks are rank 2 \<open>[x, y]\<close>, the images rank 3 \<open>[slice, x, y]\<close>, the
  k-space and sensitivity volumes rank 4 \<open>[slice, x, y, coil]\<close>.  Only entries whose index
  lies inside the shape belong to the tensor.

  Entries are exact real and complex numbers: rounding, overflow and the non-finite values of
  the machine formats are not represented.  Where the source divides, the case of a zero
  divisor is discussed at the division.
\<close>

datatype py_error = ValueError | IndexError | RuntimeError | KeyError

record 'a tensor2 =
  shape2 :: "nat \<times> nat"
  elem2 :: "nat \<Rightarrow> nat \<Rightarrow> 'a"

record 'a tensor3 =
  shape3 :: "nat \<times> nat \<times> nat"
  elem3 :: "nat \<Rightarrow> nat \<Rightarrow> nat \<Rightarrow> 'a"

record 'a tensor4 =
  shape4 :: "nat \<times> nat \<times> nat \<times> nat"
  elem4 :: "nat \<Rightarrow> nat \<Rightarrow> nat \<Rightarrow> nat \<Rightarrow> 'a"

definition bindE :: "py_error + 'a \<Rightarrow> ('a \<Rightarrow> py_error + 'b) \<Rightarrow> py_error + 'b" where
  "bindE m f = (case m of Inl e \<Rightarrow> Inl e | Inr v \<Rightarrow> f v)"

subsection \<open>Slices\<close>

text \<open>
  A bound of a Python slice over an axis of length \<open>n\<close>: a negative bound counts from the
  end, and every bound is clipped to \<open>0..n\<close>.
\<close>

definition clamp_index :: "nat \<Rightarrow> int \<Rightarrow> nat" where
  "clamp_index n i = (if i < 0 then nat (max 0 (i + int n)) else min (nat i) n)"

text \<open>\<open>in_slice n start stop c\<close>: position \<open>c\<close> is selected by \<open>start:stop\<close>.\<close>

definition in_slice :: "nat \<Rightarrow> int \<Rightarrow> int \<Rightarrow> nat \<Rightarrow> bool" where
  "in_slice n start stop c \<longleftrightarrow> clamp_index n start \<le> c \<and> c < clamp_index n stop"

text \<open>\<open>in_stride n step c\<close>: position \<open>c\<close> is selected by \<open>::step\<close>, for a positive step.\<close>

definition in_stride :: "nat \<Rightarrow> int \<Rightarrow> nat \<Rightarrow> bool" where
  "in_stride n step c \<longleftrightarrow> c < n \<and> int c mod step = 0"

text \<open>\<open>t[rows, cols] = v\<close> for a scalar \<open>v\<close>.\<close>

definition set_block :: "(nat \<Rightarrow> bool) \<Rightarrow> (nat \<Rightarrow> bool) \<Rightarrow> 'a \<Rightarrow> 'a tensor2 \<Rightarrow> 'a tensor2" where
  "set_block rows cols v t =
     t\<lparr>elem2 := (\<lambda>r c. if rows r \<and> cols c then v else elem2 t r c)\<rparr>"

text \<open>\<open>t[:, cols] = v\<close>.\<close>

definition set_cols :: "(nat \<Rightarrow> bool) \<Rightarrow> 'a \<Rightarrow> 'a tensor2 \<Rightarrow> 'a tensor2" where
  "set_cols cols v t = set_block (\<lambda>r. r < fst (shape2 t)) cols v t"

definition zeros2 :: "nat \<times> nat \<Rightarrow> complex tensor2" where
  "zeros2 sh = \<lparr>shape2 = sh, elem2 = (\<lambda>r c. 0)\<rparr>"

subsection \<open>Broadcasting\<close>

text \<open>
  Two axis lengths broadcast when they are equal or one of them is 1; the tensor library
  raises a RuntimeError otherwise.  An axis of length 1 is read at index 0.
\<close>

definition bdim :: "nat \<Rightarrow> nat \<Rightarrow> nat option" where
  "bdim p q = (if p = q then Some p else if p = 1 then Some q else if q = 1 then Some p else None)"

definition bidx :: "nat \<Rightarrow> nat \<Rightarrow> nat" where
  "bidx p i = (if p = 1 then 0 else i)"

definition bop2 :: "('a \<Rightarrow> 'b \<Rightarrow> 'c) \<Rightarrow> 'a tensor2 \<Rightarrow> 'b tensor2 \<Rightarrow> py_error + 'c tensor2" where
  "bop2 f t u =
     (case (shape2 t, shape2 u) of ((p0, p1), (q0, q1)) \<Rightarrow>
        (case (bdim p0 q0, bdim p1 q1) of
           (Some d0, Some d1) \<Rightarrow>
             Inr \<lparr>shape2 = (d0, d1),
                  elem2 = (\<lambda>a b. f (elem2 t (bidx p0 a) (bidx p1 b))
                                    (elem2 u (bidx q0 a) (bidx q1 b)))\<rparr>
         | _ \<Rightarrow> Inl RuntimeError))"

definition bop4 :: "('a \<Rightarrow> 'b \<Rightarrow> 'c) \<Rightarrow> 'a tensor4 \<Rightarrow> 'b tensor4 \<Rightarrow> py_error + 'c tensor4" where
  "bop4 f t u =
     (case (shape4 t, shape4 u) of ((p0, p1, p2, p3), (q0, q1, q2, q3)) \<Rightarrow>
        (case (bdim p0 q0, bdim p1 q1, bdim p2 q2, bdim p3 q3) of
           (Some d0, Some d1, Some d2, Some d3) \<Rightarrow>
             Inr \<lparr>shape4 = (d0, d1, d2, d3),
                  elem4 = (\<lambda>i a b c.
                     f (elem4 t (bidx p0 i) (bidx p1 a) (bidx p2 b) (bidx p3 c))
                       (elem4 u (bidx q0 i) (bidx q1 a) (bidx q2 b) (bidx q3 c)))\<rparr>
         | _ \<Rightarrow> Inl RuntimeError))"

text \<open>\<open>t * u\<close> on rank-4 tensors.\<close>

definition mul4 :: "complex tensor4 \<Rightarrow> complex tensor4 \<Rightarrow> py_error + complex tensor4" where
  "mul4 = bop4 (*)"

text \<open>\<open>x[:,:,:,None]\<close>: a new last axis of length 1.\<close>

definition unsqueeze_last :: "'a tensor3 \<Rightarrow> 'a tensor4" where
  "unsqueeze_last x =
     (case shape3 x of (B, Nx, Ny) \<Rightarrow>
        \<lparr>shape4 = (B, Nx, Ny, 1), elem4 = (\<lambda>i a b c. elem3 x i a b)\<rparr>)"

text \<open>\<open>mask[None,:,:,None]\<close>: new first and last axes of length 1.\<close>

definition unsqueeze_both :: "'a tensor2 \<Rightarrow> 'a tensor4" where
  "unsqueeze_both m =
     (case shape2 m of (Nx, Ny) \<Rightarrow>
        \<lparr>shape4 = (1, Nx, Ny, 1), elem4 = (\<lambda>i a b c. elem2 m a b)\<rparr>)"

text \<open>\<open>torch.conj(S)\<close>.\<close>

definition conj4 :: "complex tensor4 \<Rightarrow> complex tensor4" where
  "conj4 S = S\<lparr>elem4 := (\<lambda>i a b c. cnj (elem4 S i a b c))\<rparr>"

text \<open>\<open>torch.sum(t, axis=3)\<close>: the sum over the coil axis.\<close>

definition sum_axis3 :: "complex tensor4 \<Rightarrow> complex tensor3" where
  "sum_axis3 t =
     (case shape4 t of (B, Nx, Ny, Nc) \<Rightarrow>
        \<lparr>shape3 = (B, Nx, Ny), elem3 = (\<lambda>i a b. \<Sum>c<Nc. elem4 t i a b c)\<rparr>)"

section \<open>Fourier operators\<close>

text \<open>
  \<open>torch.fft.fftshift\<close> and \<open>torch.fft.ifftshift\<close> over the axes 1 and 2, the default
  \<open>axis=[1,2]\<close> with which every caller in the source uses them.  Along an axis of length
  \<open>n\<close>, \<open>fftshift\<close> rolls the entries forward by \<open>n // 2\<close> places and \<open>ifftshift\<close> rolls
  them back by \<open>n // 2\<close> places.
\<close>

definition fftshift :: "'a tensor4 \<Rightarrow> 'a tensor4" where
  "fftshift t =
     (case shape4 t of (B, Nx, Ny, Nc) \<Rightarrow>
        t\<lparr>elem4 := (\<lambda>i a b c.
             elem4 t i ((a + (Nx - Nx div 2)) mod Nx) ((b + (Ny - Ny div 2)) mod Ny) c)\<rparr>)"

definition ifftshift :: "'a tensor4 \<Rightarrow> 'a tensor4" where
  "ifftshift t =
     (case shape4 t of (B, Nx, Ny, Nc) \<Rightarrow>
        t\<lparr>elem4 := (\<lambda>i a b c.
             elem4 t i ((a + Nx div 2) mod Nx) ((b + Ny div 2) mod Ny) c)\<rparr>)"

text \<open>
  \<open>torch.fft.fftn\<close> and \<open>torch.fft.ifftn\<close> with \<open>dim=[1,2]\<close> and \<open>norm='ortho'\<close>, as the
  library documents them: the discrete Fourier transform over both axes, scaled by
  \<open>1 / sqrt (Nx * Ny)\<close> in both directions, with the kernel \<open>exp (- 2 \<pi> i a j / n)\<close>
  forwards and its conjugate backwards.  The library rejects an axis of length 0.
\<close>

definition twiddle :: "real \<Rightarrow> nat \<Rightarrow> nat \<Rightarrow> nat \<Rightarrow> complex" where
  "twiddle sg n a j = cis (sg * (2 * pi * real a * real j / real n))"

definition dft2 :: "real \<Rightarrow> complex tensor4 \<Rightarrow> py_error + complex tensor4" where
  "dft2 sg t =
     (case shape4 t of (B, Nx, Ny, Nc) \<Rightarrow>
        if Nx = 0 \<or> Ny = 0 then Inl RuntimeError
        else Inr (t\<lparr>elem4 := (\<lambda>i a b c.
               (\<Sum>j<Nx. \<Sum>k<Ny. elem4 t i j k c * twiddle sg Nx a j * twiddle sg Ny b k)
                 / complex_of_real (sqrt (real (Nx * Ny))))\<rparr>))"

definition fftn :: "complex tensor4 \<Rightarrow> py_error + complex tensor4" where
  "fftn = dft2 (- 1)"

definition ifftn :: "complex tensor4 \<Rightarrow> py_error + complex tensor4" where
  "ifftn = dft2 1"

text \<open>The two wrappers of the source: shift, transform, shift.\<close>

definition fft2 :: "complex tensor4 \<Rightarrow> py_error + complex tensor4" where
  "fft2 img = bindE (fftn (ifftshift img)) (\<lambda>y. Inr (fftshift y))"

definition ifft2 :: "complex tensor4 \<Rightarrow> py_error + complex tensor4" where
  "ifft2 ksp = bindE (ifftn (fftshift ksp)) (\<lambda>y. Inr (ifftshift y))"

section \<open>Encoding and decoding\<close>

text \<open>The mask argument is \<open>None\<close> or a rank-2 tensor.\<close>

definition encode ::
  "complex tensor3 \<Rightarrow> complex tensor4 \<Rightarrow> complex tensor2 option \<Rightarrow> py_error + complex tensor4" where
  "encode x S msk =
     (case msk of
        None \<Rightarrow> bindE (mul4 S (unsqueeze_last x)) fft2
      | Some m \<Rightarrow>
          bindE (bindE (mul4 S (unsqueeze_last x)) fft2) (\<lambda>y. mul4 y (unsqueeze_both m)))"

definition decode :: "complex tensor4 \<Rightarrow> complex tensor4 \<Rightarrow> py_error + complex tensor3" where
  "decode x S =
     bindE (ifft2 x) (\<lambda>y. bindE (mul4 y (conj4 S)) (\<lambda>z. Inr (sum_axis3 z)))"

section \<open>Normalised mean square error\<close>

text \<open>
  The arguments are one-dimensional arrays of reals.  The quotient of two array sums is a
  floating-point division, which does not raise: a zero divisor gives an infinity or NaN.
\<close>

datatype npfloat = Finite real | PosInf | NegInf | NaN

definition np_divide :: "real \<Rightarrow> real \<Rightarrow> npfloat" where
  "np_divide a b =
     (if b \<noteq> 0 then Finite (a / b)
      else if a > 0 then PosInf else if a < 0 then NegInf else NaN)"

text \<open>\<open>x - xref\<close> with broadcasting; the library raises a ValueError on a mismatch.\<close>

definition np_sub :: "real list \<Rightarrow> real list \<Rightarrow> py_error + real list" where
  "np_sub x y =
     (case bdim (length x) (length y) of
        None \<Rightarrow> Inl ValueError
      | Some n \<Rightarrow> Inr (map (\<lambda>i. x ! bidx (length x) i - y ! bidx (length y) i) [0..<n]))"

definition nmse :: "real list \<Rightarrow> real list \<Rightarrow> py_error + npfloat" where
  "nmse x xref =
     bindE (np_sub x xref)
       (\<lambda>d. Inr (np_divide (sum_list (map (\<lambda>v. v ^ 2) d)) (sum_list (map (\<lambda>v. v ^ 2) xref))))"

section \<open>Gaussian kernel\<close>

text \<open>\<open>torch.linspace(-1, 1, steps=n)\<close> at position \<open>a\<close>.\<close>

definition linspace :: "nat \<Rightarrow> nat \<Rightarrow> real" where
  "linspace n a = (if n = 1 then - 1 else - 1 + 2 * real a / real (n - 1))"

text \<open>\<open>torch.max\<close> of a tensor without entries raises a RuntimeError.\<close>

definition max2 :: "real tensor2 \<Rightarrow> py_error + real" where
  "max2 t =
     (case shape2 t of (Nx, Ny) \<Rightarrow>
        if Nx = 0 \<or> Ny = 0 then Inl RuntimeError
        else Inr (Max ((\<lambda>(a, b). elem2 t a b) ` ({..<Nx} \<times> {..<Ny}))))"

definition gauss_gen :: "nat \<Rightarrow> nat \<Rightarrow> real \<Rightarrow> py_error + real tensor2" where
  "gauss_gen Nx Ny sigma =
     (let z = \<lparr>shape2 = (Nx, Ny),
               elem2 = (\<lambda>a b. exp (- ((linspace Nx a * linspace Nx a
                                        + linspace Ny b * linspace Ny b) / (2 * sigma))))\<rparr>
      in bindE (max2 z) (\<lambda>m. Inr (z\<lparr>elem2 := (\<lambda>a b. elem2 z a b / m)\<rparr>)))"

section \<open>The dataset\<close>

record KneeDataset =
  num_ACS :: int
  kspace :: "complex tensor4"
  n_slices :: nat
  sens_map :: "complex tensor4"
  mask_f :: "complex tensor2"
  x0 :: "complex tensor3"
  xref :: "complex tensor3"
  R :: int
  gauss_kernel :: "real tensor2 option"
  random_f :: "real tensor2 option"
  rand_mask :: "bool tensor2 option"

text \<open>
  The fields \<open>gauss_kernel\<close>, \<open>random_f\<close> and \<open>rand_mask\<close> do not exist before the first
  item access: they are \<open>None\<close> until then.
\<close>

subsection \<open>Construction\<close>

text \<open>\<open>data[0:num_slice:1]\<close>: the leading slices of a stored volume.\<close>

definition take_slices :: "'a tensor4 \<Rightarrow> int \<Rightarrow> 'a tensor4" where
  "take_slices t num_slice =
     (case shape4 t of (B, Nx, Ny, Nc) \<Rightarrow>
        t\<lparr>shape4 := (clamp_index B num_slice - clamp_index B 0, Nx, Ny, Nc)\<rparr>)"

text \<open>
  \<open>t[i:i+1]\<close>: one slice, keeping the slice axis, whose only position is 0; empty when
  \<open>i\<close> is out of range.
\<close>

definition slice1 :: "'a tensor4 \<Rightarrow> nat \<Rightarrow> 'a tensor4" where
  "slice1 t i =
     (case shape4 t of (B, Nx, Ny, Nc) \<Rightarrow>
        \<lparr>shape4 = (if i < B then 1 else 0, Nx, Ny, Nc),
         elem4 = (\<lambda>j a b c. elem4 t i a b c)\<rparr>)"

text \<open>\<open>torch.max(torch.abs(t))\<close>; the library rejects a tensor without entries.\<close>

definition max_abs4 :: "complex tensor4 \<Rightarrow> py_error + real" where
  "max_abs4 t =
     (case shape4 t of (B, Nx, Ny, Nc) \<Rightarrow>
        if B = 0 \<or> Nx = 0 \<or> Ny = 0 \<or> Nc = 0 then Inl RuntimeError
        else Inr (Max ((\<lambda>(i, a, b, c). cmod (elem4 t i a b c)) `
                        ({..<B} \<times> {..<Nx} \<times> {..<Ny} \<times> {..<Nc}))))"

text \<open>
  \<open>t / v\<close> for a real scalar \<open>v\<close>.  The source divides a slice by its largest modulus,
  which is zero exactly when every entry of the slice is zero; the machine result is then
  NaN in every entry, which the complex numbers do not have, and the model has \<open>z / 0 = 0\<close>
  there.  Nothing is stated below about such a slice.
\<close>

definition div4 :: "complex tensor4 \<Rightarrow> real \<Rightarrow> complex tensor4" where
  "div4 t v = t\<lparr>elem4 := (\<lambda>i a b c. elem4 t i a b c / complex_of_real v)\<rparr>"

text \<open>
  \<open>t[i] = v\<close> for a value with a leading axis: the leading axis must have length 1 and the
  other axes must broadcast to those of \<open>t\<close>.
\<close>

definition fits :: "nat \<Rightarrow> nat \<Rightarrow> bool" where
  "fits p n \<longleftrightarrow> p = n \<or> p = 1"

definition assign_slice4 :: "'a tensor4 \<Rightarrow> nat \<Rightarrow> 'a tensor4 \<Rightarrow> py_error + 'a tensor4" where
  "assign_slice4 t i v =
     (case (shape4 t, shape4 v) of ((B, Nx, Ny, Nc), (p0, p1, p2, p3)) \<Rightarrow>
        if \<not> i < B then Inl IndexError
        else if \<not> (p0 = 1 \<and> fits p1 Nx \<and> fits p2 Ny \<and> fits p3 Nc) then Inl RuntimeError
        else Inr (t\<lparr>elem4 := (\<lambda>j a b c.
               if j = i then elem4 v 0 (bidx p1 a) (bidx p2 b) (bidx p3 c)
               else elem4 t j a b c)\<rparr>))"

definition assign_slice3 :: "'a tensor3 \<Rightarrow> nat \<Rightarrow> 'a tensor3 \<Rightarrow> py_error + 'a tensor3" where
  "assign_slice3 t i v =
     (case (shape3 t, shape3 v) of ((B, Nx, Ny), (p0, p1, p2)) \<Rightarrow>
        if \<not> i < B then Inl IndexError
        else if \<not> (p0 = 1 \<and> fits p1 Nx \<and> fits p2 Ny) then Inl RuntimeError
        else Inr (t\<lparr>elem3 := (\<lambda>j a b.
               if j = i then elem3 v 0 (bidx p1 a) (bidx p2 b)
               else elem3 t j a b)\<rparr>))"

text \<open>
  The fixed mask of the constructor: zeros, then ones on every \<open>R\<close>-th column, on the first
  and the last 18 columns and on the centred band.  A step that is not positive is rejected
  by the tensor library.
\<close>

definition init_mask :: "nat \<Rightarrow> nat \<Rightarrow> int \<Rightarrow> int \<Rightarrow> py_error + complex tensor2" where
  "init_mask Nx Ny R' num_ACS' =
     (let m0 = zeros2 (Nx, Ny)
      in if R' \<le> 0 then Inl ValueError
         else
           let m1 = set_cols (in_stride Ny R') 1 m0;
               m2 = set_cols (in_slice Ny 0 18) 1 m1;
               m3 = set_cols (in_slice Ny (- 18) (int Ny)) 1 m2;
               m4 = set_cols (in_slice Ny ((int Ny - num_ACS') div 2)
                                          ((int Ny + num_ACS') div 2)) 1 m3
           in Inr m4)"

text \<open>
  One round of the constructor's loop, on the triple of \<open>kspace\<close>, \<open>x0\<close> and \<open>xref\<close>:
  slice \<open>i\<close> of the k-space is divided by its largest modulus and stored back, and the two
  reconstructions of slice \<open>i\<close> are decoded from the stored slice.
\<close>

type_synonym init_state = "complex tensor4 \<times> complex tensor3 \<times> complex tensor3"

definition init_step ::
  "complex tensor2 \<Rightarrow> complex tensor4 \<Rightarrow> nat \<Rightarrow> init_state \<Rightarrow> py_error + init_state" where
  "init_step msk sens i st =
     (case st of (ks, xz, xr) \<Rightarrow>
        bindE (max_abs4 (slice1 ks i)) (\<lambda>norm_value.
        bindE (assign_slice4 ks i (div4 (slice1 ks i) norm_value)) (\<lambda>ks'.
        bindE (mul4 (slice1 ks' i) (unsqueeze_both msk)) (\<lambda>ym.
        bindE (decode ym (slice1 sens i)) (\<lambda>d0.
        bindE (assign_slice3 xz i d0) (\<lambda>xz'.
        bindE (decode (slice1 ks' i) (slice1 sens i)) (\<lambda>d1.
        bindE (assign_slice3 xr i d1) (\<lambda>xr'.
        Inr (ks', xz', xr')))))))))"

text \<open>\<open>for i in range(n)\<close>: the rounds \<open>0, \<dots>, n - 1\<close> in this order.\<close>

fun init_loop ::
  "complex tensor2 \<Rightarrow> complex tensor4 \<Rightarrow> nat \<Rightarrow> init_state \<Rightarrow> py_error + init_state" where
  "init_loop msk sens 0 st = Inr st"
| "init_loop msk sens (Suc n) st = bindE (init_loop msk sens n st) (init_step msk sens n)"

text \<open>
  The constructor.  \<open>kdata\<close> and \<open>cdata\<close> are the volumes stored in the two files; \<open>e0\<close>
  and \<open>e1\<close> are the unspecified contents of the two \<open>torch.empty\<close> tensors.
\<close>

definition KneeDataset_init ::
  "complex tensor4 \<Rightarrow> complex tensor4 \<Rightarrow> int \<Rightarrow> int \<Rightarrow> int \<Rightarrow>
   (nat \<Rightarrow> nat \<Rightarrow> nat \<Rightarrow> complex) \<Rightarrow> (nat \<Rightarrow> nat \<Rightarrow> nat \<Rightarrow> complex) \<Rightarrow> py_error + KneeDataset" where
  "KneeDataset_init kdata cdata R' num_slice num_ACS' e0 e1 =
     (let ks = take_slices kdata num_slice;
          sens = take_slices cdata num_slice
      in case shape4 ks of (n, Nx, Ny, Nc) \<Rightarrow>
         bindE (init_mask Nx Ny R' num_ACS') (\<lambda>m.
         bindE (init_loop m sens n
                  (ks, \<lparr>shape3 = (n, Nx, Ny), elem3 = e0\<rparr>, \<lparr>shape3 = (n, Nx, Ny), elem3 = e1\<rparr>))
           (\<lambda>(ks', xz, xr).
              Inr \<lparr>num_ACS = num_ACS', kspace = ks', n_slices = n, sens_map = sens,
                   mask_f = m, x0 = xz, xref = xr, R = R',
                   gauss_kernel = None, random_f = None, rand_mask = None\<rparr>)))"

subsection \<open>Item access\<close>

text \<open>
  \<open>t[index]\<close> on the slice axis, for a Python integer: a negative index counts from the
  end, an index outside \<open>- n .. n - 1\<close> raises an IndexError.
\<close>

definition norm_index :: "nat \<Rightarrow> int \<Rightarrow> py_error + nat" where
  "norm_index n i =
     (let j = (if i < 0 then i + int n else i)
      in if 0 \<le> j \<and> j < int n then Inr (nat j) else Inl IndexError)"

definition select3 :: "'a tensor3 \<Rightarrow> int \<Rightarrow> py_error + 'a tensor2" where
  "select3 t index =
     (case shape3 t of (B, Nx, Ny) \<Rightarrow>
        bindE (norm_index B index)
          (\<lambda>j. Inr \<lparr>shape2 = (Nx, Ny), elem2 = (\<lambda>a b. elem3 t j a b)\<rparr>))"

definition select4 :: "'a tensor4 \<Rightarrow> int \<Rightarrow> py_error + 'a tensor3" where
  "select4 t index =
     (case shape4 t of (B, Nx, Ny, Nc) \<Rightarrow>
        bindE (norm_index B index)
          (\<lambda>j. Inr \<lparr>shape3 = (Nx, Ny, Nc), elem3 = (\<lambda>a b c. elem4 t j a b c)\<rparr>))"

text \<open>\<open>t > v\<close> for a scalar \<open>v\<close>: a tensor of truth values.\<close>

definition greater2 :: "real tensor2 \<Rightarrow> real \<Rightarrow> bool tensor2" where
  "greater2 t v = \<lparr>shape2 = shape2 t, elem2 = (\<lambda>a b. elem2 t a b > v)\<rparr>"

text \<open>
  The value returned for one item: \<open>x0[index]\<close>, \<open>xref[index]\<close>, \<open>kspace[index]\<close>,
  \<open>sens_map[index]\<close>, the random mask and the index.
\<close>

type_synonym item =
  "complex tensor2 \<times> complex tensor2 \<times> complex tensor3 \<times> complex tensor3 \<times> bool tensor2 \<times> int"

text \<open>
  \<open>__getitem__\<close>.  \<open>u\<close> holds the numbers drawn by \<open>torch.rand\<close>.  The result is the
  returned item, or the error raised, together with the object as the call leaves it:
  an assignment to a field that has run before an error stays.  The writes into the mask
  store 1.0 and 0.0 in a tensor of truth values, that is \<open>True\<close> and \<open>False\<close>.
\<close>

definition getitem ::
  "KneeDataset \<Rightarrow> int \<Rightarrow> (nat \<Rightarrow> nat \<Rightarrow> real) \<Rightarrow> (py_error + item) \<times> KneeDataset" where
  "getitem self index u =
     (case gauss_gen (fst (shape2 (mask_f self))) (snd (shape2 (mask_f self))) (1 / 2) of
        Inl e \<Rightarrow> (Inl e, self)
      | Inr g \<Rightarrow>
          (case shape4 (kspace self) of (n, Nx, Ny, Nc) \<Rightarrow>
             let s1 = self\<lparr>gauss_kernel := Some g\<rparr>;
                 rnd = \<lparr>shape2 = (Nx, Ny), elem2 = u\<rparr>;
                 s2 = s1\<lparr>random_f := Some rnd\<rparr>
             in case bop2 (*) rnd g of
                  Inl e \<Rightarrow> (Inl e, s2)
                | Inr p \<Rightarrow>
                    let m0 = greater2 p (6 / 10);
                        m1 = set_block (in_slice (fst (shape2 m0)) 158 162)
                                       (in_slice (snd (shape2 m0)) 182 186) False m0
                    in if R self \<le> 0 then (Inl ValueError, s2\<lparr>rand_mask := Some m1\<rparr>)
                       else
                         let W = snd (shape2 m1);
                             m2 = set_cols (in_stride W (R self)) True m1;
                             m3 = set_cols (in_slice W 0 18) True m2;
                             m4 = set_cols (in_slice W (- 18) (int Ny)) True m3;
                             m5 = set_cols (in_slice W ((int Ny - num_ACS self) div 2)
                                                       ((int Ny + num_ACS self) div 2)) True m4;
                             s3 = s2\<lparr>rand_mask := Some m5\<rparr>
                         in (bindE (select3 (x0 self) index) (\<lambda>a.
                             bindE (select3 (xref self) index) (\<lambda>b.
                             bindE (select4 (kspace self) index) (\<lambda>c.
                             bindE (select4 (sens_map self) index) (\<lambda>d.
                             Inr (a, b, c, d, m5, index))))), s3)))"

text \<open>\<open>__len__\<close>.\<close>

definition len :: "KneeDataset \<Rightarrow> nat" where
  "len self = n_slices self"

section \<open>Loaders\<close>

text \<open>
  \<open>int(dataset.n_slices * 0.8)\<close> is a product of double-precision numbers, modelled
  exactly.  A double has 53 significant bits: \<open>round53 P\<close> is the natural number with at
  most 53 significant bits nearest to \<open>P\<close>, ties going to the even significand.  The
  literal \<open>0.8\<close> is the double \<open>3602879701896397 / 2^52\<close>.  The integer \<open>n\<close> is first
  converted to a double, the product is rounded, and \<open>int\<close> truncates it.
\<close>

definition round53 :: "nat \<Rightarrow> nat" where
  "round53 P =
     (let s = bitlen (int P) - 53
      in if s \<le> 0 then P
         else
           let q = P div 2 ^ nat s; r = P mod 2 ^ nat s; h = 2 ^ (nat s - 1)
           in (if r > h \<or> (r = h \<and> odd q) then q + 1 else q) * 2 ^ nat s)"

definition int_times_08 :: "nat \<Rightarrow> nat" where
  "int_times_08 n = round53 (round53 n * 3602879701896397) div 2 ^ 52"

text \<open>\<open>xs[start:stop]\<close> on a list.\<close>

definition list_slice :: "'a list \<Rightarrow> int \<Rightarrow> int \<Rightarrow> 'a list" where
  "list_slice xs start stop =
     (let lo = clamp_index (length xs) start; hi = clamp_index (length xs) stop
      in take (hi - lo) (drop lo xs))"

text \<open>
  \<open>torch.utils.data.random_split\<close> for two lengths, as the library documents it: the
  lengths must add up to the length of the dataset, and the two subsets are consecutive
  runs of a random permutation \<open>perm\<close> of the indices.  A subset is the list of its indices
  into the dataset.
\<close>

definition random_split ::
  "KneeDataset \<Rightarrow> int \<times> int \<Rightarrow> nat list \<Rightarrow> py_error + nat list \<times> nat list" where
  "random_split ds lengths perm =
     (case lengths of (l1, l2) \<Rightarrow>
        if l1 + l2 \<noteq> int (len ds) then Inl ValueError
        else Inr (list_slice perm (l1 - l1) l1, list_slice perm (l1 + l2 - l2) (l1 + l2)))"

text \<open>
  \<open>params[key]\<close> on a dictionary: a missing key raises a KeyError.  The two values that
  the source reads are integers.
\<close>

definition dict_item :: "(string \<rightharpoonup> int) \<Rightarrow> string \<Rightarrow> py_error + int" where
  "dict_item params key = (case params key of None \<Rightarrow> Inl KeyError | Some v \<Rightarrow> Inr v)"

text \<open>
  A loader as its constructor leaves it: the dataset it reads, as the list of the indices
  of its items, and its settings.  The constructor of the loading library iterates nothing,
  but it checks its arguments: a negative \<open>num_workers\<close> is rejected; with \<open>shuffle=True\<close>
  it builds a random sampler over the dataset, which rejects a dataset without items
  (\<open>num_samples should be a positive integer value\<close>); the batch sampler rejects a
  \<open>batch_size\<close> that is not positive.  Each of them raises a ValueError.  The generator
  argument only seeds the later shuffling and is left out.
\<close>

record DataLoader =
  dataset :: "nat list"
  batch_size :: int
  shuffle :: bool
  drop_last :: bool
  num_workers :: int

definition DataLoader_init ::
  "nat list \<Rightarrow> int \<Rightarrow> bool \<Rightarrow> bool \<Rightarrow> int \<Rightarrow> py_error + DataLoader" where
  "DataLoader_init ds bs sh dl nw =
     (if nw < 0 then Inl ValueError
      else if sh \<and> length ds = 0 then Inl ValueError
      else if bs \<le> 0 then Inl ValueError
      else Inr \<lparr>dataset = ds, batch_size = bs, shuffle = sh, drop_last = dl, num_workers = nw\<rparr>)"

text \<open>The two dictionaries that \<open>prepare_train_loaders\<close> returns, with their fixed keys.\<close>

record loaders =
  train_loader :: DataLoader
  valid_loader :: DataLoader
  full_loader :: DataLoader

record datasets =
  train_dataset :: "nat list"
  valid_dataset :: "nat list"

text \<open>
  \<open>prepare_train_loaders\<close>.  \<open>perm\<close> is the permutation that the split draws.  The
  arguments of each loader are evaluated in the order in which the source writes them, and
  the whole dataset is handed to the third loader as the list of all its indices.
\<close>

definition prepare_train_loaders ::
  "KneeDataset \<Rightarrow> (string \<rightharpoonup> int) \<Rightarrow> nat list \<Rightarrow> py_error + loaders \<times> datasets" where
  "prepare_train_loaders ds params perm =
     (let train_num = int (int_times_08 (n_slices ds));
          valid_num = int (n_slices ds) - train_num
      in bindE (random_split ds (train_num, valid_num) perm) (\<lambda>(train, valid).
         bindE (dict_item params ''batch_size'') (\<lambda>b1.
         bindE (dict_item params ''num_workers'') (\<lambda>w1.
         bindE (DataLoader_init train b1 True True w1) (\<lambda>tl.
         bindE (dict_item params ''batch_size'') (\<lambda>b2.
         bindE (dict_item params ''num_workers'') (\<lambda>w2.
         bindE (DataLoader_init valid b2 True True w2) (\<lambda>vl.
         bindE (dict_item params ''batch_size'') (\<lambda>b3.
         bindE (dict_item params ''num_workers'') (\<lambda>w3.
         bindE (DataLoader_init [0..<len ds] b3 True False w3) (\<lambda>fl.
         Inr (\<lparr>train_loader = tl, valid_loader = vl, full_loader = fl\<rparr>,
              \<lparr>train_dataset = train, valid_dataset = valid\<rparr>))))))))))))"

section \<open>Datasets that the program can hold\<close>

text \<open>
  A dataset object is made by the constructor and changed only by item accesses.
\<close>

inductive reachable :: "KneeDataset \<Rightarrow> bool" where
  constructed:
    "KneeDataset_init kdata cdata R' num_slice num_ACS' e0 e1 = Inr ds \<Longrightarrow> reachable ds"
| accessed:
    "reachable ds \<Longrightarrow> getitem ds index u = (res, ds') \<Longrightarrow> reachable ds'"

section \<open>Equality of tensors\<close>

text \<open>
  Two tensors are the same tensor when they have the same shape and the same entry at every
  index inside the shape.  Two results are the same when both are the same error or both
  are the same tensor.
\<close>

definition same4 :: "'a tensor4 \<Rightarrow> 'a tensor4 \<Rightarrow> bool" where
  "same4 t u \<longleftrightarrow>
     shape4 t = shape4 u \<and>
     (case shape4 t of (B, Nx, Ny, Nc) \<Rightarrow>
        \<forall>i<B. \<forall>a<Nx. \<forall>b<Ny. \<forall>c<Nc. elem4 t i a b c = elem4 u i a b c)"

definition same3 :: "'a tensor3 \<Rightarrow> 'a tensor3 \<Rightarrow> bool" where
  "same3 t u \<longleftrightarrow>
     shape3 t = shape3 u \<and>
     (case shape3 t of (B, Nx, Ny) \<Rightarrow>
        \<forall>i<B. \<forall>a<Nx. \<forall>b<Ny. elem3 t i a b = elem3 u i a b)"

definition same_result4 :: "py_error + 'a tensor4 \<Rightarrow> py_error + 'a tensor4 \<Rightarrow> bool" where
  "same_result4 r1 r2 =
     (case (r1, r2) of
        (Inl e1, Inl e2) \<Rightarrow> e1 = e2
      | (Inr t, Inr u) \<Rightarrow> same4 t u
      | _ \<Rightarrow> False)"

section \<open>The encoding operator as the specification words it\<close>

text \<open>
  The image is multiplied by the sensitivity of each coil, entry by entry, the same image
  for every coil; the product is transformed by \<open>fft2\<close>; when a mask is given, every entry
  of the transform is multiplied by the mask entry of its position \<open>(x, y)\<close>, the same for
  every slice and coil.
\<close>

definition coil_images :: "complex tensor3 \<Rightarrow> complex tensor4 \<Rightarrow> complex tensor4" where
  "coil_images x S = S\<lparr>elem4 := (\<lambda>i a b c. elem4 S i a b c * elem3 x i a b)\<rparr>"

definition apply_mask :: "complex tensor4 \<Rightarrow> complex tensor2 \<Rightarrow> complex tensor4" where
  "apply_mask y m = y\<lparr>elem4 := (\<lambda>i a b c. elem4 y i a b c * elem2 m a b)\<rparr>"

definition encode_spec ::
  "complex tensor3 \<Rightarrow> complex tensor4 \<Rightarrow> complex tensor2 option \<Rightarrow> py_error + complex tensor4" where
  "encode_spec x S msk =
     (case msk of
        None \<Rightarrow> fft2 (coil_images x S)
      | Some m \<Rightarrow> bindE (fft2 (coil_images x S)) (\<lambda>y. Inr (apply_mask y m)))"

section \<open>Concrete inputs\<close>

text \<open>Tensors with one value in every entry, and the unit impulse at the origin.\<close>

definition full4 :: "nat \<times> nat \<times> nat \<times> nat \<Rightarrow> 'a \<Rightarrow> 'a tensor4" where
  "full4 sh v = \<lparr>shape4 = sh, elem4 = (\<lambda>i a b c. v)\<rparr>"

definition impulse4 :: "nat \<times> nat \<times> nat \<times> nat \<Rightarrow> complex tensor4" where
  "impulse4 sh = \<lparr>shape4 = sh, elem4 = (\<lambda>i a b c. if a = 0 \<and> b = 0 then 1 else 0)\<rparr>"

definition impulse3 :: "nat \<times> nat \<times> nat \<Rightarrow> complex tensor3" where
  "impulse3 sh = \<lparr>shape3 = sh, elem3 = (\<lambda>i a b. if a = 0 \<and> b = 0 then 1 else 0)\<rparr>"

text \<open>The mask that an item holds.\<close>

definition item_mask :: "item \<Rightarrow> bool tensor2" where
  "item_mask it = (case it of (a, b, c, d, m, i) \<Rightarrow> m)"

text \<open>The four stored slices that an item holds.\<close>

definition item_data ::
  "item \<Rightarrow> complex tensor2 \<times> complex tensor2 \<times> complex tensor3 \<times> complex tensor3" where
  "item_data it = (case it of (a, b, c, d, m, i) \<Rightarrow> (a, b, c, d))"

section \<open>Properties\<close>

subsection \<open>Basic facts\<close>

lemma bindE_Inr_iff: "bindE m f = Inr y \<longleftrightarrow> (\<exists>v. m = Inr v \<and> f v = Inr y)"
  by (cases m) (simp_all add: bindE_def)

lemma bindE_Inr [simp]: "bindE (Inr v) f = f v"
  by (simp add: bindE_def)

lemma bindE_Inl [simp]: "bindE (Inl e) f = Inl e"
  by (simp add: bindE_def)

lemma shape2_set_block [simp]: "shape2 (set_block rows cols v t) = shape2 t"
  by (simp add: set_block_def)

lemma elem2_set_block [simp]:
  "elem2 (set_block rows cols v t) r c = (if rows r \<and> cols c then v else elem2 t r c)"
  by (simp add: set_block_def)

lemma shape2_set_cols [simp]: "shape2 (set_cols cols v t) = shape2 t"
  by (simp add: set_cols_def)

lemma elem2_set_cols [simp]:
  "elem2 (set_cols cols v t) r c = (if r < fst (shape2 t) \<and> cols c then v else elem2 t r c)"
  by (simp add: set_cols_def)

lemma bidx_less [simp]: "a < p \<Longrightarrow> bidx p a = a"
  by (auto simp: bidx_def)

lemma bdim_same [simp]: "bdim p p = Some p"
  by (simp add: bdim_def)

lemma bdim_one_right [simp]: "bdim p (Suc 0) = Some p"
  by (simp add: bdim_def)

lemma bdim_one_left [simp]: "bdim (Suc 0) p = Some p"
  by (auto simp add: bdim_def)

lemma bdim_Some_fits: "bdim p q = Some d \<Longrightarrow> fits d p \<Longrightarrow> d = p"
  by (auto simp: bdim_def fits_def split: if_splits)

lemma init_mask_Inr:
  "init_mask Nx Ny R' A = Inr m \<Longrightarrow>
     0 < R' \<and> shape2 m = (Nx, Ny) \<and>
     (\<forall>r c. elem2 m r c =
        (if r < Nx \<and> (in_slice Ny ((int Ny - A) div 2) ((int Ny + A) div 2) c
                      \<or> in_slice Ny (- 18) (int Ny) c \<or> in_slice Ny 0 18 c \<or> in_stride Ny R' c)
         then 1 else 0))"
  by (auto simp: init_mask_def Let_def zeros2_def split: if_splits)

subsection \<open>Shapes and entries of the tensor operations\<close>

lemma shape4_slice1:
  "shape4 t = (B, Nx, Ny, Nc) \<Longrightarrow> shape4 (slice1 t i) = (if i < B then 1 else 0, Nx, Ny, Nc)"
  by (simp add: slice1_def)

lemma elem4_slice1 [simp]: "elem4 (slice1 t i) j a b c = elem4 t i a b c"
  by (cases "shape4 t") (simp add: slice1_def)

lemma shape4_div4 [simp]: "shape4 (div4 t v) = shape4 t"
  by (simp add: div4_def)

lemma elem4_div4 [simp]: "elem4 (div4 t v) i a b c = elem4 t i a b c / complex_of_real v"
  by (simp add: div4_def)

lemma shape4_conj4 [simp]: "shape4 (conj4 t) = shape4 t"
  by (simp add: conj4_def)

lemma elem4_conj4 [simp]: "elem4 (conj4 t) i a b c = cnj (elem4 t i a b c)"
  by (simp add: conj4_def)

lemma shape4_fftshift [simp]: "shape4 (fftshift t) = shape4 t"
  by (cases "shape4 t") (simp add: fftshift_def)

lemma shape4_ifftshift [simp]: "shape4 (ifftshift t) = shape4 t"
  by (cases "shape4 t") (simp add: ifftshift_def)

lemma shape4_unsqueeze_both:
  "shape2 m = (Nx, Ny) \<Longrightarrow> shape4 (unsqueeze_both m) = (1, Nx, Ny, 1)"
  by (simp add: unsqueeze_both_def)

lemma elem4_unsqueeze_both [simp]: "elem4 (unsqueeze_both m) i a b c = elem2 m a b"
  by (cases "shape2 m") (simp add: unsqueeze_both_def)

lemma shape4_unsqueeze_last:
  "shape3 x = (B, Nx, Ny) \<Longrightarrow> shape4 (unsqueeze_last x) = (B, Nx, Ny, 1)"
  by (simp add: unsqueeze_last_def)

lemma elem4_unsqueeze_last [simp]: "elem4 (unsqueeze_last x) i a b c = elem3 x i a b"
  by (cases "shape3 x") (simp add: unsqueeze_last_def)

lemma shape3_sum_axis3:
  "shape4 t = (B, Nx, Ny, Nc) \<Longrightarrow> shape3 (sum_axis3 t) = (B, Nx, Ny)"
  by (simp add: sum_axis3_def)

lemma elem3_sum_axis3:
  "shape4 t = (B, Nx, Ny, Nc) \<Longrightarrow> elem3 (sum_axis3 t) i a b = (\<Sum>c<Nc. elem4 t i a b c)"
  by (simp add: sum_axis3_def)

lemma dft2_Inr:
  "shape4 t = (B, Nx, Ny, Nc) \<Longrightarrow> dft2 sg t = Inr y \<longleftrightarrow>
     0 < Nx \<and> 0 < Ny \<and>
     y = t\<lparr>elem4 := (\<lambda>i a b c.
               (\<Sum>j<Nx. \<Sum>k<Ny. elem4 t i j k c * twiddle sg Nx a j * twiddle sg Ny b k)
                 / complex_of_real (sqrt (real (Nx * Ny))))\<rparr>"
  by (auto simp: dft2_def)

lemma dft2_shape: "dft2 sg t = Inr y \<Longrightarrow> shape4 y = shape4 t"
  by (cases "shape4 t") (auto simp: dft2_Inr)

lemma fft2_shape: "fft2 t = Inr y \<Longrightarrow> shape4 y = shape4 t"
  by (auto simp: fft2_def fftn_def bindE_Inr_iff dest: dft2_shape)

lemma ifft2_shape: "ifft2 t = Inr y \<Longrightarrow> shape4 y = shape4 t"
  by (auto simp: ifft2_def ifftn_def bindE_Inr_iff dest: dft2_shape)

lemma ifft2_total:
  "shape4 t = (B, Nx, Ny, Nc) \<Longrightarrow> 0 < Nx \<Longrightarrow> 0 < Ny \<Longrightarrow> \<exists>y. ifft2 t = Inr y"
  by (simp add: ifft2_def ifftn_def dft2_def)

lemma bop4_Inr:
  assumes "shape4 t = (p0, p1, p2, p3)" "shape4 u = (q0, q1, q2, q3)"
  shows "bop4 f t u = Inr y \<longleftrightarrow>
     (\<exists>d0 d1 d2 d3. bdim p0 q0 = Some d0 \<and> bdim p1 q1 = Some d1 \<and> bdim p2 q2 = Some d2 \<and>
        bdim p3 q3 = Some d3 \<and>
        y = \<lparr>shape4 = (d0, d1, d2, d3),
             elem4 = (\<lambda>i a b c.
                f (elem4 t (bidx p0 i) (bidx p1 a) (bidx p2 b) (bidx p3 c))
                  (elem4 u (bidx q0 i) (bidx q1 a) (bidx q2 b) (bidx q3 c)))\<rparr>)"
  using assms by (auto simp: bop4_def split: option.splits)

lemma max_abs4_Inr:
  assumes "shape4 t = (B, Nx, Ny, Nc)"
  shows "max_abs4 t = Inr M \<longleftrightarrow>
     0 < B \<and> 0 < Nx \<and> 0 < Ny \<and> 0 < Nc \<and>
     M = Max ((\<lambda>(i, a, b, c). cmod (elem4 t i a b c)) `
               ({..<B} \<times> {..<Nx} \<times> {..<Ny} \<times> {..<Nc}))"
  using assms by (auto simp: max_abs4_def)

lemma assign_slice4_Inr:
  assumes "shape4 t = (B, Nx, Ny, Nc)" "shape4 v = (p0, p1, p2, p3)"
  shows "assign_slice4 t i v = Inr t' \<longleftrightarrow>
     i < B \<and> p0 = 1 \<and> fits p1 Nx \<and> fits p2 Ny \<and> fits p3 Nc \<and>
     t' = t\<lparr>elem4 := (\<lambda>j a b c.
               if j = i then elem4 v 0 (bidx p1 a) (bidx p2 b) (bidx p3 c)
               else elem4 t j a b c)\<rparr>"
  using assms by (auto simp: assign_slice4_def)

lemma assign_slice3_Inr:
  assumes "shape3 t = (B, Nx, Ny)" "shape3 v = (p0, p1, p2)"
  shows "assign_slice3 t i v = Inr t' \<longleftrightarrow>
     i < B \<and> p0 = 1 \<and> fits p1 Nx \<and> fits p2 Ny \<and>
     t' = t\<lparr>elem3 := (\<lambda>j a b.
               if j = i then elem3 v 0 (bidx p1 a) (bidx p2 b)
               else elem3 t j a b)\<rparr>"
  using assms by (auto simp: assign_slice3_def)

subsection \<open>The loop of the constructor\<close>

lemma slice1_cong:
  "shape4 t = shape4 t' \<Longrightarrow> elem4 t i = elem4 t' i \<Longrightarrow> slice1 t i = slice1 t' i"
  by (cases "shape4 t'") (simp add: slice1_def)

lemma assign_slice4_frame:
  assumes "assign_slice4 t i v = Inr t'"
  shows "shape4 t' = shape4 t \<and> (\<forall>j. j \<noteq> i \<longrightarrow> elem4 t' j = elem4 t j)"
  using assms
  by (cases "shape4 t"; cases "shape4 v") (auto simp: assign_slice4_Inr)

lemma assign_slice3_frame:
  assumes "assign_slice3 t i v = Inr t'"
  shows "shape3 t' = shape3 t \<and> (\<forall>j. j \<noteq> i \<longrightarrow> elem3 t' j = elem3 t j)"
  using assms
  by (cases "shape3 t"; cases "shape3 v") (auto simp: assign_slice3_Inr)

lemma decode_Inr:
  "decode x S = Inr d \<longleftrightarrow>
     (\<exists>y z. ifft2 x = Inr y \<and> mul4 y (conj4 S) = Inr z \<and> d = sum_axis3 z)"
  by (auto simp: decode_def bindE_Inr_iff)

lemma init_step_Inr:
  "init_step msk sens i (ks, xz, xr) = Inr (ks', xz', xr') \<longleftrightarrow>
     (\<exists>M ym d0 d1.
        max_abs4 (slice1 ks i) = Inr M \<and>
        assign_slice4 ks i (div4 (slice1 ks i) M) = Inr ks' \<and>
        mul4 (slice1 ks' i) (unsqueeze_both msk) = Inr ym \<and>
        decode ym (slice1 sens i) = Inr d0 \<and>
        assign_slice3 xz i d0 = Inr xz' \<and>
        decode (slice1 ks' i) (slice1 sens i) = Inr d1 \<and>
        assign_slice3 xr i d1 = Inr xr')"
  by (auto simp: init_step_def bindE_Inr_iff)

lemma init_step_frame:
  assumes "init_step msk sens i (ks, xz, xr) = Inr (ks', xz', xr')"
  shows "shape4 ks' = shape4 ks \<and> shape3 xz' = shape3 xz \<and> shape3 xr' = shape3 xr \<and>
         (\<forall>j. j \<noteq> i \<longrightarrow> elem4 ks' j = elem4 ks j \<and> elem3 xz' j = elem3 xz j \<and>
                            elem3 xr' j = elem3 xr j)"
proof -
  from assms obtain M d0 d1 where
    a: "assign_slice4 ks i (div4 (slice1 ks i) M) = Inr ks'"
    and b: "assign_slice3 xz i d0 = Inr xz'"
    and c: "assign_slice3 xr i d1 = Inr xr'"
    unfolding init_step_Inr by blast
  show ?thesis
    using assign_slice4_frame [OF a] assign_slice3_frame [OF b] assign_slice3_frame [OF c]
    by simp
qed

lemma init_loop_frame:
  "init_loop msk sens n (ks, xz, xr) = Inr (ks', xz', xr') \<Longrightarrow>
     shape4 ks' = shape4 ks \<and> shape3 xz' = shape3 xz \<and> shape3 xr' = shape3 xr \<and>
     (\<forall>j. n \<le> j \<longrightarrow> elem4 ks' j = elem4 ks j \<and> elem3 xz' j = elem3 xz j \<and>
                        elem3 xr' j = elem3 xr j)"
proof (induction n arbitrary: ks' xz' xr')
  case 0
  then show ?case by simp
next
  case (Suc n)
  from Suc.prems obtain ks1 xz1 xr1 where
    l: "init_loop msk sens n (ks, xz, xr) = Inr (ks1, xz1, xr1)"
    and s: "init_step msk sens n (ks1, xz1, xr1) = Inr (ks', xz', xr')"
    by (auto simp: bindE_Inr_iff)
  show ?case
    using Suc.IH [OF l] init_step_frame [OF s] by auto
qed

text \<open>
  Every round of the loop that has run is a round on the slice as it was at the start, and
  leaves its slice as it is at the end.
\<close>

lemma init_loop_round:
  "init_loop msk sens n (ks, xz, xr) = Inr (ksF, xzF, xrF) \<Longrightarrow> i < n \<Longrightarrow>
     \<exists>ks1 xz1 xr1 ks2 xz2 xr2.
        init_step msk sens i (ks1, xz1, xr1) = Inr (ks2, xz2, xr2) \<and>
        shape4 ks1 = shape4 ks \<and> elem4 ks1 i = elem4 ks i \<and>
        shape3 xz1 = shape3 xz \<and> shape3 xr1 = shape3 xr \<and>
        shape4 ks2 = shape4 ks \<and> elem4 ks2 i = elem4 ksF i \<and>
        elem3 xz2 i = elem3 xzF i \<and> elem3 xr2 i = elem3 xrF i"
proof (induction n arbitrary: ksF xzF xrF)
  case 0
  then show ?case by simp
next
  case (Suc n)
  from Suc.prems obtain ksn xzn xrn where
    l: "init_loop msk sens n (ks, xz, xr) = Inr (ksn, xzn, xrn)"
    and s: "init_step msk sens n (ksn, xzn, xrn) = Inr (ksF, xzF, xrF)"
    by (auto simp: bindE_Inr_iff)
  show ?case
  proof (cases "i = n")
    case True
    show ?thesis
      using init_loop_frame [OF l] init_step_frame [OF s] s True
      by (intro exI [of _ ksn] exI [of _ xzn] exI [of _ xrn]
                exI [of _ ksF] exI [of _ xzF] exI [of _ xrF]) simp
  next
    case False
    with Suc.prems have "i < n" by simp
    from Suc.IH [OF l this] obtain ks1 xz1 xr1 ks2 xz2 xr2 where
      r: "init_step msk sens i (ks1, xz1, xr1) = Inr (ks2, xz2, xr2)"
         "shape4 ks1 = shape4 ks" "elem4 ks1 i = elem4 ks i"
         "shape3 xz1 = shape3 xz" "shape3 xr1 = shape3 xr"
         "shape4 ks2 = shape4 ks" "elem4 ks2 i = elem4 ksn i"
         "elem3 xz2 i = elem3 xzn i" "elem3 xr2 i = elem3 xrn i"
      by blast
    from init_step_frame [OF s] False have
      "elem4 ksF i = elem4 ksn i" "elem3 xzF i = elem3 xzn i" "elem3 xrF i = elem3 xrn i"
      by simp_all
    with r show ?thesis by metis
  qed
qed

lemma normalise_max:
  assumes sh: "shape4 ks = (n, Nx, Ny, Nc)"
    and m: "max_abs4 (slice1 ks i) = Inr M"
    and as: "assign_slice4 ks i (div4 (slice1 ks i) M) = Inr ks'"
    and nz: "a < Nx" "b < Ny" "c < Nc" "elem4 ks i a b c \<noteq> 0"
  shows "max_abs4 (slice1 ks' i) = Inr 1"
proof -
  define S where "S = ({..<1::nat} \<times> {..<Nx} \<times> {..<Ny} \<times> {..<Nc})"
  define f where "f = (\<lambda>(j::nat, a, b, c). cmod (elem4 ks i a b c))"
  define g where "g = (\<lambda>(j::nat, a, b, c). cmod (elem4 ks' i a b c))"
  have fin: "finite S" by (simp add: S_def)
  have mem: "(0, a, b, c) \<in> S" using nz by (simp add: S_def)
  from as sh have "i < n"
    by (cases "shape4 (div4 (slice1 ks i) M)") (auto simp: assign_slice4_Inr)
  then have sh1: "shape4 (slice1 ks i) = (1, Nx, Ny, Nc)"
    using sh by (simp add: shape4_slice1)
  from m have M: "M = Max (f ` S)"
    unfolding max_abs4_Inr [OF sh1] by (simp add: S_def f_def)
  have "f (0, a, b, c) \<le> M"
    unfolding M using fin mem by (intro Max_ge) auto
  moreover have "0 < f (0, a, b, c)" using nz by (simp add: f_def)
  ultimately have Mpos: "0 < M" by linarith
  have le: "f x \<le> M" if "x \<in> S" for x
    unfolding M using fin that by (intro Max_ge) auto
  have "M \<in> f ` S"
    unfolding M using fin mem by (intro Max_in) auto
  then obtain x where x: "x \<in> S" "f x = M" by auto
  have ks': "elem4 ks' i a' b' c' = elem4 ks i a' b' c' / complex_of_real M"
    if "a' < Nx" "b' < Ny" "c' < Nc" for a' b' c'
    using as that unfolding assign_slice4_Inr [OF sh, of "div4 (slice1 ks i) M" 1 Nx Ny Nc, simplified sh1 shape4_div4, OF refl]
    by simp
  have gf: "g y = f y / M" if "y \<in> S" for y
    using that Mpos by (auto simp: S_def g_def f_def ks' norm_divide)
  have sh': "shape4 ks' = (n, Nx, Ny, Nc)"
    using assign_slice4_frame [OF as] sh by simp
  have sh1': "shape4 (slice1 ks' i) = (1, Nx, Ny, Nc)"
    using sh' \<open>i < n\<close> by (simp add: shape4_slice1)
  have "Max (g ` S) = 1"
  proof (rule Max_eqI)
    show "finite (g ` S)" using fin by simp
    show "y \<le> 1" if "y \<in> g ` S" for y
      using that le Mpos by (auto simp: gf)
    show "1 \<in> g ` S"
      using x Mpos by (auto simp: image_iff gf intro!: bexI [of _ x])
  qed
  moreover from m have "0 < Nx \<and> 0 < Ny \<and> 0 < Nc"
    unfolding max_abs4_Inr [OF sh1] by simp
  ultimately show ?thesis
    unfolding max_abs4_Inr [OF sh1'] by (simp add: S_def g_def)
qed

lemma mul4_Inr:
  assumes "shape4 t = (p0, p1, p2, p3)" "shape4 u = (q0, q1, q2, q3)"
  shows "mul4 t u = Inr y \<longleftrightarrow>
     (\<exists>d0 d1 d2 d3. bdim p0 q0 = Some d0 \<and> bdim p1 q1 = Some d1 \<and> bdim p2 q2 = Some d2 \<and>
        bdim p3 q3 = Some d3 \<and>
        y = \<lparr>shape4 = (d0, d1, d2, d3),
             elem4 = (\<lambda>i a b c.
                elem4 t (bidx p0 i) (bidx p1 a) (bidx p2 b) (bidx p3 c)
                  * elem4 u (bidx q0 i) (bidx q1 a) (bidx q2 b) (bidx q3 c))\<rparr>)"
  unfolding mul4_def by (rule bop4_Inr [OF assms])

lemma decode_shape:
  assumes "shape4 x = (p0, p1, p2, p3)" "shape4 S = (q0, q1, q2, q3)" "decode x S = Inr d"
  shows "\<exists>d0 d1 d2. shape3 d = (d0, d1, d2) \<and> bdim p0 q0 = Some d0 \<and> bdim p1 q1 = Some d1 \<and>
           bdim p2 q2 = Some d2"
proof -
  from assms(3) obtain y z where y: "ifft2 x = Inr y" and z: "mul4 y (conj4 S) = Inr z"
    and d: "d = sum_axis3 z"
    unfolding decode_Inr by blast
  have shy: "shape4 y = (p0, p1, p2, p3)" using ifft2_shape [OF y] assms(1) by simp
  have shS: "shape4 (conj4 S) = (q0, q1, q2, q3)" using assms(2) by simp
  from z obtain d0 d1 d2 d3 where
    "bdim p0 q0 = Some d0" "bdim p1 q1 = Some d1" "bdim p2 q2 = Some d2"
    "shape4 z = (d0, d1, d2, d3)"
    unfolding mul4_Inr [OF shy shS] by auto
  then show ?thesis using d by (simp add: shape3_sum_axis3)
qed

lemma decode_assign:
  assumes x: "shape4 x = (1, Nx, Ny, Nc)" and d: "decode x S = Inr d"
    and t: "shape3 t = (B, Nx, Ny)" and as: "assign_slice3 t i d = Inr t'"
    and ab: "a < Nx" "b < Ny"
  shows "elem3 t' i a b = elem3 d 0 a b"
proof -
  obtain q0 q1 q2 q3 where S: "shape4 S = (q0, q1, q2, q3)" by (cases "shape4 S")
  from decode_shape [OF x S d] obtain d0 d1 d2 where
    sd: "shape3 d = (d0, d1, d2)" and b1: "bdim Nx q1 = Some d1" and b2: "bdim Ny q2 = Some d2"
    by blast
  from as have f: "fits d1 Nx" "fits d2 Ny"
    and t': "t' = t\<lparr>elem3 := (\<lambda>j a b. if j = i then elem3 d 0 (bidx d1 a) (bidx d2 b)
                                      else elem3 t j a b)\<rparr>"
    unfolding assign_slice3_Inr [OF t sd] by simp_all
  have "d1 = Nx" "d2 = Ny"
    using bdim_Some_fits [OF b1 f(1)] bdim_Some_fits [OF b2 f(2)] by simp_all
  then show ?thesis using ab by (simp add: t')
qed

lemma decode_total:
  assumes "shape4 x = (1, Nx, Ny, Nc)" "shape4 S = (1, Nx, Ny, Nc)" "0 < Nx" "0 < Ny"
  shows "\<exists>d. decode x S = Inr d \<and> shape3 d = (1, Nx, Ny)"
proof -
  from ifft2_total [OF assms(1,3,4)] obtain y where y: "ifft2 x = Inr y" by blast
  have shy: "shape4 y = (1, Nx, Ny, Nc)" using ifft2_shape [OF y] assms(1) by simp
  have shS: "shape4 (conj4 S) = (1, Nx, Ny, Nc)" using assms(2) by simp
  obtain z where z: "mul4 y (conj4 S) = Inr z" "shape4 z = (1, Nx, Ny, Nc)"
    unfolding mul4_Inr [OF shy shS] by simp
  then show ?thesis
    unfolding decode_Inr using y by (auto simp: shape3_sum_axis3)
qed

lemma init_step_total:
  assumes ks: "shape4 ks = (n, Nx, Ny, Nc)" and xz: "shape3 xz = (n, Nx, Ny)"
    and xr: "shape3 xr = (n, Nx, Ny)" and sens: "shape4 sens = (n, Nx, Ny, Nc)"
    and msk: "shape2 msk = (Nx, Ny)" and i: "i < n" and pos: "0 < Nx" "0 < Ny" "0 < Nc"
  shows "\<exists>ks' xz' xr'. init_step msk sens i (ks, xz, xr) = Inr (ks', xz', xr')"
proof -
  have sh1: "shape4 (slice1 ks i) = (1, Nx, Ny, Nc)"
    using ks i by (simp add: shape4_slice1)
  obtain M where M: "max_abs4 (slice1 ks i) = Inr M"
    unfolding max_abs4_Inr [OF sh1] using pos by simp
  have shd: "shape4 (div4 (slice1 ks i) M) = (1, Nx, Ny, Nc)" using sh1 by simp
  obtain ks' where ks': "assign_slice4 ks i (div4 (slice1 ks i) M) = Inr ks'"
    unfolding assign_slice4_Inr [OF ks shd] using i by (simp add: fits_def)
  have shk: "shape4 ks' = (n, Nx, Ny, Nc)" using assign_slice4_frame [OF ks'] ks by simp
  have sh1': "shape4 (slice1 ks' i) = (1, Nx, Ny, Nc)"
    using shk i by (simp add: shape4_slice1)
  have shs: "shape4 (slice1 sens i) = (1, Nx, Ny, Nc)"
    using sens i by (simp add: shape4_slice1)
  obtain ym where ym: "mul4 (slice1 ks' i) (unsqueeze_both msk) = Inr ym"
    "shape4 ym = (1, Nx, Ny, Nc)"
    unfolding mul4_Inr [OF sh1' shape4_unsqueeze_both [OF msk]] by simp
  from decode_total [OF ym(2) shs pos(1,2)] obtain d0 where
    d0: "decode ym (slice1 sens i) = Inr d0" "shape3 d0 = (1, Nx, Ny)" by blast
  from decode_total [OF sh1' shs pos(1,2)] obtain d1 where
    d1: "decode (slice1 ks' i) (slice1 sens i) = Inr d1" "shape3 d1 = (1, Nx, Ny)" by blast
  obtain xz' where xz': "assign_slice3 xz i d0 = Inr xz'"
    unfolding assign_slice3_Inr [OF xz d0(2)] using i by (simp add: fits_def)
  obtain xr' where xr': "assign_slice3 xr i d1 = Inr xr'"
    unfolding assign_slice3_Inr [OF xr d1(2)] using i by (simp add: fits_def)
  show ?thesis
    unfolding init_step_Inr using M ks' ym(1) d0(1) d1(1) xz' xr' by blast
qed

lemma init_loop_total:
  assumes ks: "shape4 ks = (n, Nx, Ny, Nc)" and xz: "shape3 xz = (n, Nx, Ny)"
    and xr: "shape3 xr = (n, Nx, Ny)" and sens: "shape4 sens = (n, Nx, Ny, Nc)"
    and msk: "shape2 msk = (Nx, Ny)" and pos: "0 < Nx" "0 < Ny" "0 < Nc"
  shows "k \<le> n \<Longrightarrow> \<exists>ks' xz' xr'. init_loop msk sens k (ks, xz, xr) = Inr (ks', xz', xr')"
proof (induction k)
  case 0
  then show ?case by simp
next
  case (Suc k)
  then obtain ks1 xz1 xr1 where l: "init_loop msk sens k (ks, xz, xr) = Inr (ks1, xz1, xr1)"
    by auto
  from init_loop_frame [OF l] ks xz xr have
    sh: "shape4 ks1 = (n, Nx, Ny, Nc)" "shape3 xz1 = (n, Nx, Ny)" "shape3 xr1 = (n, Nx, Ny)"
    by simp_all
  from Suc.prems have "k < n" by simp
  from init_step_total [OF sh sens msk this pos] l show ?case by simp
qed

lemma shape4_take_slices:
  "shape4 t = (B, Nx, Ny, Nc) \<Longrightarrow>
   shape4 (take_slices t k) = (clamp_index B k - clamp_index B 0, Nx, Ny, Nc)"
  by (simp add: take_slices_def)

lemma elem4_take_slices [simp]: "elem4 (take_slices t k) = elem4 t"
  by (cases "shape4 t") (simp add: take_slices_def)

lemma clamp_index_zero [simp]: "clamp_index B 0 = 0"
  by (simp add: clamp_index_def)

lemma clamp_index_whole [simp]: "clamp_index B (int B) = B"
  by (simp add: clamp_index_def)

lemma init_mask_total:
  "0 < R' \<Longrightarrow> \<exists>m. init_mask Nx Ny R' A = Inr m \<and> shape2 m = (Nx, Ny)"
  by (simp add: init_mask_def Let_def zeros2_def)

lemma KneeDataset_init_total:
  assumes k: "shape4 kdata = (B, Nx, Ny, Nc)" and c: "shape4 cdata = (B, Nx, Ny, Nc)"
    and pos: "0 < Nx" "0 < Ny" "0 < Nc" "0 < R'"
  shows "\<exists>ds. KneeDataset_init kdata cdata R' (int B) A e0 e1 = Inr ds"
proof -
  have sk: "shape4 (take_slices kdata (int B)) = (B, Nx, Ny, Nc)"
    using shape4_take_slices [OF k, of "int B"] by simp
  have sc: "shape4 (take_slices cdata (int B)) = (B, Nx, Ny, Nc)"
    using shape4_take_slices [OF c, of "int B"] by simp
  from init_mask_total [OF pos(4)] obtain m where
    m: "init_mask Nx Ny R' A = Inr m" "shape2 m = (Nx, Ny)" by blast
  from init_loop_total [OF sk _ _ sc m(2) pos(1,2,3) order_refl,
      of "\<lparr>shape3 = (B, Nx, Ny), elem3 = e0\<rparr>" "\<lparr>shape3 = (B, Nx, Ny), elem3 = e1\<rparr>"]
  obtain ks' xz' xr' where
    "init_loop m (take_slices cdata (int B)) B
       (take_slices kdata (int B), \<lparr>shape3 = (B, Nx, Ny), elem3 = e0\<rparr>,
        \<lparr>shape3 = (B, Nx, Ny), elem3 = e1\<rparr>) = Inr (ks', xz', xr')"
    by auto
  then show ?thesis
    using sk m(1) by (simp add: KneeDataset_init_def Let_def)
qed

lemma KneeDataset_init_Inr:
  assumes "KneeDataset_init kdata cdata R' num_slice A e0 e1 = Inr ds"
  shows "\<exists>n Nx Ny Nc.
     shape4 (take_slices kdata num_slice) = (n, Nx, Ny, Nc) \<and>
     init_mask Nx Ny R' A = Inr (mask_f ds) \<and>
     init_loop (mask_f ds) (take_slices cdata num_slice) n
       (take_slices kdata num_slice, \<lparr>shape3 = (n, Nx, Ny), elem3 = e0\<rparr>,
        \<lparr>shape3 = (n, Nx, Ny), elem3 = e1\<rparr>) = Inr (kspace ds, x0 ds, xref ds) \<and>
     R ds = R' \<and> num_ACS ds = A \<and> n_slices ds = n \<and>
     sens_map ds = take_slices cdata num_slice \<and>
     gauss_kernel ds = None \<and> random_f ds = None \<and> rand_mask ds = None"
  using assms
  by (auto simp: KneeDataset_init_def Let_def bindE_Inr_iff split: prod.splits)

subsection \<open>Normalisation of the k-space slices\<close>


subsection \<open>The mask of an item access\<close>

lemma gauss_gen_Inr:
  "gauss_gen Nx Ny sigma = Inr g \<Longrightarrow> 0 < Nx \<and> 0 < Ny \<and> shape2 g = (Nx, Ny)"
  by (auto simp: gauss_gen_def Let_def bindE_Inr_iff max2_def split: if_splits)

lemma gauss_gen_total:
  "0 < Nx \<Longrightarrow> 0 < Ny \<Longrightarrow> \<exists>g. gauss_gen Nx Ny sigma = Inr g"
  by (simp add: gauss_gen_def Let_def max2_def)

lemma bop2_Inr:
  assumes "shape2 t = (p0, p1)" "shape2 u = (q0, q1)"
  shows "bop2 f t u = Inr y \<longleftrightarrow>
     (\<exists>d0 d1. bdim p0 q0 = Some d0 \<and> bdim p1 q1 = Some d1 \<and>
        y = \<lparr>shape2 = (d0, d1),
             elem2 = (\<lambda>a b. f (elem2 t (bidx p0 a) (bidx p1 b))
                               (elem2 u (bidx q0 a) (bidx q1 b)))\<rparr>)"
  using assms by (auto simp: bop2_def split: option.splits)

lemma shape2_greater2 [simp]: "shape2 (greater2 t v) = shape2 t"
  by (simp add: greater2_def)

lemma elem2_greater2 [simp]: "elem2 (greater2 t v) a b \<longleftrightarrow> elem2 t a b > v"
  by (simp add: greater2_def)

text \<open>The mask that a successful item access returns, entry by entry.\<close>

lemma getitem_Inr:
  assumes g: "getitem self index u = (Inr it, self')"
    and k: "shape4 (kspace self) = (n, Nx, Ny, Nc)"
    and m: "shape2 (mask_f self) = (Nx, Ny)"
  shows "0 < R self \<and> shape2 (item_mask it) = (Nx, Ny) \<and>
     rand_mask self' = Some (item_mask it) \<and>
     (\<exists>p::real tensor2. shape2 p = (Nx, Ny) \<and> (\<forall>r c. r < Nx \<longrightarrow>
        elem2 (item_mask it) r c =
          (if in_slice Ny ((int Ny - num_ACS self) div 2) ((int Ny + num_ACS self) div 2) c
              \<or> in_slice Ny (- 18) (int Ny) c \<or> in_slice Ny 0 18 c \<or> in_stride Ny (R self) c
           then True
           else if in_slice Nx 158 162 r \<and> in_slice Ny 182 186 c then False
           else elem2 p r c > 6 / 10)))"
proof -
  from g obtain gk where gk: "gauss_gen Nx Ny (1 / 2) = Inr gk"
    using m by (auto simp: getitem_def split: sum.splits)
  have shg: "shape2 gk = (Nx, Ny)" using gauss_gen_Inr [OF gk] by simp
  let ?rnd = "\<lparr>shape2 = (Nx, Ny), elem2 = u\<rparr>"
  from g gk k m obtain p where p: "bop2 (*) ?rnd gk = Inr p"
    by (auto simp: getitem_def Let_def split: sum.splits)
  have shp: "shape2 p = (Nx, Ny)"
    using p unfolding bop2_Inr [OF _ shg, of ?rnd Nx Ny, simplified] by auto
  from g gk k m p have R: "0 < R self"
    by (auto simp: getitem_def Let_def split: sum.splits if_splits)
  show ?thesis
    using g gk k m p R shp
    by (auto simp: getitem_def Let_def item_mask_def bindE_Inr_iff intro!: exI [of _ p])
qed

text \<open>The Gaussian kernel is 1 at the centre of a grid with odd side lengths.\<close>

lemma linspace_centre: "0 < h \<Longrightarrow> linspace (Suc (2 * h)) h = 0"
  by (simp add: linspace_def)

lemma gauss_gen_centre:
  assumes g: "gauss_gen (2 * h + 1) (2 * w + 1) sigma = Inr g" and pos: "0 < h" "0 < w" "0 < sigma"
  shows "elem2 g h w = 1"
proof -
  let ?f = "\<lambda>(a, b). exp (- ((linspace (2 * h + 1) a * linspace (2 * h + 1) a
                + linspace (2 * w + 1) b * linspace (2 * w + 1) b) / (2 * sigma)))"
  let ?S = "?f ` ({..<2 * h + 1} \<times> {..<2 * w + 1})"
  have "Max ?S = 1"
  proof (rule Max_eqI)
    show "finite ?S" by simp
    show "y \<le> 1" if "y \<in> ?S" for y
      using that pos(3) by (auto simp: divide_nonneg_pos)
    have "?f (h, w) = 1" using pos by (simp add: linspace_centre)
    moreover have "(h, w) \<in> {..<2 * h + 1} \<times> {..<2 * w + 1}" by simp
    ultimately show "1 \<in> ?S" by (metis (no_types, lifting) image_eqI)
  qed
  then show ?thesis
    using g pos by (auto simp: gauss_gen_def Let_def max2_def bindE_def linspace_centre)
qed

text \<open>The kernel and the random field that a successful item access leaves in the object.\<close>

lemma getitem_gauss_kernel:
  assumes g: "getitem self index u = (Inr it, self')"
    and m: "shape2 (mask_f self) = (Nx, Ny)"
  shows "\<exists>gk. gauss_gen Nx Ny (1 / 2) = Inr gk \<and> gauss_kernel self' = Some gk \<and>
     random_f self' = Some \<lparr>shape2 = (fst (snd (shape4 (kspace self))),
                                       fst (snd (snd (shape4 (kspace self))))), elem2 = u\<rparr>"
  using g m
  by (cases "shape4 (kspace self)")
     (auto simp: getitem_def Let_def split: sum.splits if_splits)

lemma bop2_cases:
  "shape2 t = shape2 t' \<Longrightarrow>
     (\<exists>e. bop2 f t u = Inl e \<and> bop2 f' t' u = Inl e) \<or>
     (\<exists>p p'. bop2 f t u = Inr p \<and> bop2 f' t' u = Inr p')"
  by (cases "shape2 t'"; cases "shape2 u") (auto simp: bop2_def split: option.splits)

lemma getitem_snd:
  "\<exists>g r m. snd (getitem ds index u) = ds\<lparr>gauss_kernel := g, random_f := r, rand_mask := m\<rparr>"
proof (cases "gauss_gen (fst (shape2 (mask_f ds))) (snd (shape2 (mask_f ds))) (1 / 2)")
  case (Inl e)
  then have "snd (getitem ds index u) = ds" by (simp add: getitem_def)
  then have "snd (getitem ds index u) =
      ds\<lparr>gauss_kernel := gauss_kernel ds, random_f := random_f ds, rand_mask := rand_mask ds\<rparr>"
    by simp
  then show ?thesis by blast
next
  case (Inr g)
  obtain n Nx Ny Nc where k: "shape4 (kspace ds) = (n, Nx, Ny, Nc)"
    by (cases "shape4 (kspace ds)")
  show ?thesis
  proof (cases "bop2 (*) \<lparr>shape2 = (Nx, Ny), elem2 = u\<rparr> g")
    case (Inl e)
    with Inr k have "snd (getitem ds index u) =
      ds\<lparr>gauss_kernel := Some g, random_f := Some \<lparr>shape2 = (Nx, Ny), elem2 = u\<rparr>,
         rand_mask := rand_mask ds\<rparr>"
      by (simp add: getitem_def)
    then show ?thesis by blast
  next
    case p: (Inr p)
    with Inr k show ?thesis
      by (cases "R ds \<le> 0") (auto simp: getitem_def Let_def)
  qed
qed

lemma getitem_fst_data:
  assumes "mask_f ds' = mask_f ds" "kspace ds' = kspace ds" "R ds' = R ds"
    "x0 ds' = x0 ds" "xref ds' = xref ds" "sens_map ds' = sens_map ds"
  shows "map_sum id item_data (fst (getitem ds' index u')) =
         map_sum id item_data (fst (getitem ds index u))"
proof (cases "gauss_gen (fst (shape2 (mask_f ds))) (snd (shape2 (mask_f ds))) (1 / 2)")
  case (Inl e)
  then show ?thesis using assms by (simp add: getitem_def)
next
  case (Inr g)
  obtain n Nx Ny Nc where k: "shape4 (kspace ds) = (n, Nx, Ny, Nc)"
    by (cases "shape4 (kspace ds)")
  have "shape2 \<lparr>shape2 = (Nx, Ny), elem2 = u\<rparr> = shape2 \<lparr>shape2 = (Nx, Ny), elem2 = u'\<rparr>"
    by simp
  from bop2_cases [OF this, of "(*)" g "(*)"] show ?thesis
  proof (elim disjE exE conjE)
    fix e assume "bop2 (*) \<lparr>shape2 = (Nx, Ny), elem2 = u\<rparr> g = Inl e"
      "bop2 (*) \<lparr>shape2 = (Nx, Ny), elem2 = u'\<rparr> g = Inl e"
    then show ?thesis using assms Inr k by (simp add: getitem_def)
  next
    fix p p' assume "bop2 (*) \<lparr>shape2 = (Nx, Ny), elem2 = u\<rparr> g = Inr p"
      "bop2 (*) \<lparr>shape2 = (Nx, Ny), elem2 = u'\<rparr> g = Inr p'"
    then show ?thesis using assms Inr k
      by (cases "R ds \<le> 0")
         (auto simp: getitem_def Let_def item_data_def bindE_def split: sum.splits)
  qed
qed

subsection \<open>What an item access changes\<close>

text \<open>
  Claim C10.  An item access leaves \<open>x0\<close>, \<open>xref\<close>, \<open>kspace\<close>, \<open>sens_map\<close>, the fixed
  mask and \<open>n_slices\<close> as they are, for every index and every random draw, also when it
  raises: the object it leaves differs from the one it found at most in \<open>gauss_kernel\<close>,
  \<open>random\<close> and \<open>rand_mask\<close>.  A second access with the same index, whatever it draws,
  returns the same four stored slices, or raises the same error.
\<close>

theorem getitem_frame:
  "x0 (snd (getitem ds index u)) = x0 ds \<and>
   xref (snd (getitem ds index u)) = xref ds \<and>
   kspace (snd (getitem ds index u)) = kspace ds \<and>
   sens_map (snd (getitem ds index u)) = sens_map ds \<and>
   mask_f (snd (getitem ds index u)) = mask_f ds \<and>
   n_slices (snd (getitem ds index u)) = n_slices ds \<and>
   (\<exists>g r m. snd (getitem ds index u) = ds\<lparr>gauss_kernel := g, random_f := r, rand_mask := m\<rparr>) \<and>
   map_sum id item_data (fst (getitem (snd (getitem ds index u)) index u')) =
     map_sum id item_data (fst (getitem ds index u))"
proof -
  from getitem_snd [of ds index u] obtain g r m where
    s: "snd (getitem ds index u) = ds\<lparr>gauss_kernel := g, random_f := r, rand_mask := m\<rparr>"
    by blast
  have "map_sum id item_data (fst (getitem (snd (getitem ds index u)) index u')) =
     map_sum id item_data (fst (getitem ds index u))"
    by (rule getitem_fst_data) (simp_all add: s)
  then show ?thesis using s by auto
qed

lemma reachable_shapes:
  "reachable ds \<Longrightarrow>
     \<exists>n Nx Ny Nc. shape4 (kspace ds) = (n, Nx, Ny, Nc) \<and> shape2 (mask_f ds) = (Nx, Ny)"
proof (induction rule: reachable.induct)
  case (constructed kdata cdata R' num_slice A e0 e1 ds)
  from KneeDataset_init_Inr [OF constructed] obtain n Nx Ny Nc where
    sh0: "shape4 (take_slices kdata num_slice) = (n, Nx, Ny, Nc)"
    and msk: "init_mask Nx Ny R' A = Inr (mask_f ds)"
    and loop: "init_loop (mask_f ds) (take_slices cdata num_slice) n
       (take_slices kdata num_slice, \<lparr>shape3 = (n, Nx, Ny), elem3 = e0\<rparr>,
        \<lparr>shape3 = (n, Nx, Ny), elem3 = e1\<rparr>) = Inr (kspace ds, x0 ds, xref ds)"
    by blast
  show ?case
    using init_loop_frame [OF loop] sh0 init_mask_Inr [OF msk] by simp
next
  case (accessed ds index u res ds')
  from getitem_snd [of ds index u] accessed(2) obtain g r m where
    "ds' = ds\<lparr>gauss_kernel := g, random_f := r, rand_mask := m\<rparr>" by auto
  with accessed.IH show ?case by simp
qed

lemma in_slice_band:
  assumes "A \<le> int Ny" "(int Ny - A) div 2 \<le> int c" "int c < (int Ny + A) div 2"
  shows "in_slice Ny ((int Ny - A) div 2) ((int Ny + A) div 2) c"
  using assms unfolding in_slice_def clamp_index_def by (auto simp: min_def max_def)

lemma in_slice_band_iff:
  assumes "A \<le> int Ny" "c < Ny"
  shows "in_slice Ny ((int Ny - A) div 2) ((int Ny + A) div 2) c \<longleftrightarrow>
         (int Ny - A) div 2 \<le> int c \<and> int c < (int Ny + A) div 2"
  using assms unfolding in_slice_def clamp_index_def by (auto simp: min_def max_def)

lemma in_slice_first: "c < W \<Longrightarrow> in_slice W 0 18 c \<longleftrightarrow> c < 18"
  by (auto simp: in_slice_def clamp_index_def)

lemma in_slice_last: "c < W \<Longrightarrow> in_slice W (- 18) (int W) c \<longleftrightarrow> W \<le> c + 18"
  by (auto simp: in_slice_def clamp_index_def max_def)

lemma in_stride_iff: "c < W \<Longrightarrow> in_stride W s c \<longleftrightarrow> int c mod s = 0"
  by (simp add: in_stride_def)

subsection \<open>The masks\<close>

text \<open>
  Claim C8, amended.  When \<open>num_ACS\<close> is at most the number of columns \<open>Ny\<close>, the fixed
  mask built by the constructor is 1 in every row at every column from
  \<open>(Ny - num_ACS) // 2\<close> up to but excluding \<open>(Ny + num_ACS) // 2\<close>.
\<close>

theorem acs_band_is_one:
  assumes init: "KneeDataset_init kdata cdata R' num_slice A e0 e1 = Inr ds"
    and sh: "shape2 (mask_f ds) = (Nx, Ny)"
    and A: "A \<le> int Ny"
    and rc: "r < Nx" "(int Ny - A) div 2 \<le> int c" "int c < (int Ny + A) div 2"
  shows "elem2 (mask_f ds) r c = 1"
proof -
  from KneeDataset_init_Inr [OF init] obtain Nx' Ny' where
    msk: "init_mask Nx' Ny' R' A = Inr (mask_f ds)" by blast
  from init_mask_Inr [OF msk] sh have eq: "Nx' = Nx" "Ny' = Ny" by simp_all
  show ?thesis
    using init_mask_Inr [OF msk] in_slice_band [OF A rc(2,3)] rc(1) unfolding eq by simp
qed

text \<open>
  Claim C1.  For every random draw, the mask returned by an item access is 1 (true) in every
  row at every column whose index is a multiple of \<open>R\<close>, at the columns 0 to 17 and at the
  last 18 columns.
\<close>

theorem rand_mask_retains_lines:
  assumes re: "reachable ds"
    and g: "getitem ds index u = (Inr it, ds')"
    and sh: "shape2 (item_mask it) = (H, W)"
    and rc: "r < H" "c < W"
    and col: "int c mod R ds = 0 \<or> c < 18 \<or> W \<le> c + 18"
  shows "elem2 (item_mask it) r c"
proof -
  from reachable_shapes [OF re] obtain n Nx Ny Nc where
    k: "shape4 (kspace ds) = (n, Nx, Ny, Nc)" and m: "shape2 (mask_f ds) = (Nx, Ny)"
    by blast
  from getitem_Inr [OF g k m] sh have eq: "Nx = H" "Ny = W" by simp_all
  from col rc(2) have
    "in_slice W (- 18) (int W) c \<or> in_slice W 0 18 c \<or> in_stride W (R ds) c"
    by (auto simp: in_slice_first in_slice_last in_stride_iff)
  then show ?thesis
    using getitem_Inr [OF g k m] rc(1) unfolding eq by auto
qed

text \<open>
  Claim C2, amended.  When \<open>num_ACS\<close> is at most the number of columns \<open>W\<close>, for every
  random draw an entry of the returned mask in the rows 158 to 161 and the columns 182 to 185
  is 1 (true) if its column is a multiple of \<open>R\<close>, is one of the last 18 columns or lies in
  the band from \<open>(W - num_ACS) // 2\<close> up to but excluding \<open>(W + num_ACS) // 2\<close>, which are
  written after the block is zeroed, and is 0 (false) otherwise.
\<close>

theorem block_zero_unless_forced:
  assumes re: "reachable ds"
    and g: "getitem ds index u = (Inr it, ds')"
    and sh: "shape2 (item_mask it) = (H, W)"
    and A: "num_ACS ds \<le> int W"
    and r: "158 \<le> r" "r < 162" "r < H"
    and c: "182 \<le> c" "c < 186" "c < W"
  shows "elem2 (item_mask it) r c \<longleftrightarrow>
     int c mod R ds = 0 \<or> W \<le> c + 18 \<or>
     ((int W - num_ACS ds) div 2 \<le> int c \<and> int c < (int W + num_ACS ds) div 2)"
proof -
  from reachable_shapes [OF re] obtain n Nx Ny Nc where
    k: "shape4 (kspace ds) = (n, Nx, Ny, Nc)" and m: "shape2 (mask_f ds) = (Nx, Ny)"
    by blast
  from getitem_Inr [OF g k m] sh have eq: "Nx = H" "Ny = W" by simp_all
  have b: "in_slice H 158 162 r" "in_slice W 182 186 c"
    using r c by (auto simp: in_slice_def clamp_index_def)
  have f: "\<not> in_slice W 0 18 c" using c by (simp add: in_slice_first)
  from getitem_Inr [OF g k m] obtain p :: "real tensor2" where
    P: "\<forall>r c. r < H \<longrightarrow>
        elem2 (item_mask it) r c =
          (if in_slice W ((int W - num_ACS ds) div 2) ((int W + num_ACS ds) div 2) c
              \<or> in_slice W (- 18) (int W) c \<or> in_slice W 0 18 c \<or> in_stride W (R ds) c
           then True
           else if in_slice H 158 162 r \<and> in_slice W 182 186 c then False
           else elem2 p r c > 6 / 10)"
    unfolding eq by blast
  from P r(3) have
    "elem2 (item_mask it) r c =
          (if in_slice W ((int W - num_ACS ds) div 2) ((int W + num_ACS ds) div 2) c
              \<or> in_slice W (- 18) (int W) c \<or> in_slice W 0 18 c \<or> in_stride W (R ds) c
           then True
           else if in_slice H 158 162 r \<and> in_slice W 182 186 c then False
           else elem2 p r c > 6 / 10)"
    by blast
  with b have
    "elem2 (item_mask it) r c \<longleftrightarrow>
       in_slice W ((int W - num_ACS ds) div 2) ((int W + num_ACS ds) div 2) c
       \<or> in_slice W (- 18) (int W) c \<or> in_slice W 0 18 c \<or> in_stride W (R ds) c"
    by simp
  then show ?thesis
    using f c(3) in_slice_band_iff [OF A c(3)]
    by (auto simp: in_slice_last in_stride_iff)
qed

subsection \<open>The claims about the masks and the slices at concrete datasets\<close>

lemma init_shapes:
  assumes init: "KneeDataset_init kdata cdata R' num_slice A e0 e1 = Inr ds"
    and k: "shape4 kdata = (B, Nx, Ny, Nc)" and c: "shape4 cdata = (B', Nx', Ny', Nc')"
  shows "shape4 (kspace ds) = (clamp_index B num_slice, Nx, Ny, Nc) \<and>
         shape3 (x0 ds) = (clamp_index B num_slice, Nx, Ny) \<and>
         shape3 (xref ds) = (clamp_index B num_slice, Nx, Ny) \<and>
         shape4 (sens_map ds) = (clamp_index B' num_slice, Nx', Ny', Nc') \<and>
         shape2 (mask_f ds) = (Nx, Ny) \<and> R ds = R' \<and> num_ACS ds = A \<and> 0 < R' \<and>
         n_slices ds = clamp_index B num_slice"
proof -
  from KneeDataset_init_Inr [OF init] obtain n X Y C where
    sh0: "shape4 (take_slices kdata num_slice) = (n, X, Y, C)"
    and msk: "init_mask X Y R' A = Inr (mask_f ds)"
    and loop: "init_loop (mask_f ds) (take_slices cdata num_slice) n
       (take_slices kdata num_slice, \<lparr>shape3 = (n, X, Y), elem3 = e0\<rparr>,
        \<lparr>shape3 = (n, X, Y), elem3 = e1\<rparr>) = Inr (kspace ds, x0 ds, xref ds)"
    and rest: "R ds = R'" "num_ACS ds = A" "n_slices ds = n"
      "sens_map ds = take_slices cdata num_slice"
    by blast
  from sh0 shape4_take_slices [OF k, of num_slice] have
    eq: "n = clamp_index B num_slice" "X = Nx" "Y = Ny" "C = Nc" by simp_all
  show ?thesis
    using init_loop_frame [OF loop] sh0 init_mask_Inr [OF msk] rest
      shape4_take_slices [OF c, of num_slice]
    unfolding eq by simp
qed

lemma norm_index_Inr: "0 \<le> i \<Longrightarrow> i < int n \<Longrightarrow> norm_index n i = Inr (nat i)"
  by (simp add: norm_index_def)

lemma getitem_total:
  assumes k: "shape4 (kspace ds) = (n, Nx, Ny, Nc)"
    and m: "shape2 (mask_f ds) = (Nx, Ny)"
    and x: "shape3 (x0 ds) = (n, X0, Y0)" "shape3 (xref ds) = (n, X1, Y1)"
    and s: "shape4 (sens_map ds) = (n, X2, Y2, C2)"
    and pos: "0 < Nx" "0 < Ny" "0 < R ds"
    and i: "0 \<le> index" "index < int n"
  shows "\<exists>it ds'. getitem ds index u = (Inr it, ds')"
proof -
  from gauss_gen_total [OF pos(1,2)] obtain g where g: "gauss_gen Nx Ny (1 / 2) = Inr g"
    by blast
  have shg: "shape2 g = (Nx, Ny)" using gauss_gen_Inr [OF g] by simp
  obtain p where p: "bop2 (*) \<lparr>shape2 = (Nx, Ny), elem2 = u\<rparr> g = Inr p"
    unfolding bop2_Inr [OF _ shg, of "\<lparr>shape2 = (Nx, Ny), elem2 = u\<rparr>" Nx Ny, simplified]
    by simp
  show ?thesis
    using g p k m x s pos(3) norm_index_Inr [OF i]
    by (simp add: getitem_def Let_def select3_def select4_def)
qed

text \<open>Volumes of one slice with one coil, every entry 1, are accepted.\<close>

lemma example_init:
  "\<exists>ds. KneeDataset_init (full4 (1, Nx, Ny, 1) 1) (full4 (1, Nx, Ny, 1) 1) R' 1 A e0 e1 = Inr ds"
  if "0 < Nx" "0 < Ny" "0 < R'"
  using KneeDataset_init_total [of "full4 (1, Nx, Ny, 1) 1" 1 Nx Ny 1 "full4 (1, Nx, Ny, 1) 1" R' A e0 e1] that
  by (simp add: full4_def)

lemma example_getitem:
  assumes init: "KneeDataset_init (full4 (1, Nx, Ny, 1) 1) (full4 (1, Nx, Ny, 1) 1) R' 1 A e0 e1 = Inr ds"
    and pos: "0 < Nx" "0 < Ny"
  shows "\<exists>it ds'. getitem ds 0 u = (Inr it, ds') \<and> shape2 (item_mask it) = (Nx, Ny)"
proof -
  have sh: "shape4 (full4 (1, Nx, Ny, 1) (1::complex)) = (1, Nx, Ny, 1)"
    by (simp add: full4_def)
  note s = init_shapes [OF init sh sh]
  have c: "clamp_index (Suc 0) 1 = Suc 0" by (simp add: clamp_index_def)
  from s have k: "shape4 (kspace ds) = (1, Nx, Ny, 1)" and m: "shape2 (mask_f ds) = (Nx, Ny)"
    by (simp_all add: c)
  from getitem_total [of ds 1 Nx Ny 1 Nx Ny Nx Ny Nx Ny 1 0 u] s pos obtain it ds' where
    g: "getitem ds 0 u = (Inr it, ds')" by (auto simp: c)
  from getitem_Inr [OF g k m] g show ?thesis by blast
qed

text \<open>
  Claim C1 at a volume of one slice of 160 by 200 with \<open>R = 4\<close>: column 40 is a multiple
  of 4, column 7 is among the first 18 and column 190 among the last 18.
\<close>

theorem rand_mask_retains_lines_witness:
  "case KneeDataset_init (full4 (1, 160, 200, 1) 1) (full4 (1, 160, 200, 1) 1) 4 1 24
          (\<lambda>i a b. 0) (\<lambda>i a b. 0) of
     Inl e \<Rightarrow> False
   | Inr ds \<Rightarrow>
       (case fst (getitem ds 0 (\<lambda>a b. 0)) of
          Inl e \<Rightarrow> False
        | Inr it \<Rightarrow> elem2 (item_mask it) 100 40 \<and> elem2 (item_mask it) 100 7
                    \<and> elem2 (item_mask it) 100 190)"
proof -
  from example_init [of 160 200 4 24] obtain ds where
    init: "KneeDataset_init (full4 (1, 160, 200, 1) 1) (full4 (1, 160, 200, 1) 1) 4 1 24
          (\<lambda>i a b. 0) (\<lambda>i a b. 0) = Inr ds" by auto
  from example_getitem [OF init, of "\<lambda>a b. 0"] obtain it ds' where
    g: "getitem ds 0 (\<lambda>a b. 0) = (Inr it, ds')" and sh: "shape2 (item_mask it) = (160, 200)"
    by auto
  have re: "reachable ds" by (rule reachable.constructed [OF init])
  have R: "R ds = 4"
    using KneeDataset_init_Inr [OF init] by auto
  have "elem2 (item_mask it) 100 40"
    using rand_mask_retains_lines [OF re g sh, of 100 40] R by simp
  moreover have "elem2 (item_mask it) 100 7"
    using rand_mask_retains_lines [OF re g sh, of 100 7] by simp
  moreover have "elem2 (item_mask it) 100 190"
    using rand_mask_retains_lines [OF re g sh, of 100 190] by simp
  ultimately show ?thesis using init g by simp
qed

text \<open>
  Claim C2 as it was worded fails at a slice of 320 by 368 with \<open>R = 4\<close> and the default
  \<open>num_ACS = 24\<close>: the centred band covers the columns 172 to 195, and the entry in row
  158 and column 183 of the returned mask is 1.
\<close>

theorem block_zero_counterexample:
  "case KneeDataset_init (full4 (1, 320, 368, 1) 1) (full4 (1, 320, 368, 1) 1) 4 1 24
          (\<lambda>i a b. 0) (\<lambda>i a b. 0) of
     Inl e \<Rightarrow> False
   | Inr ds \<Rightarrow>
       (case fst (getitem ds 0 (\<lambda>a b. 0)) of
          Inl e \<Rightarrow> False
        | Inr it \<Rightarrow> shape2 (item_mask it) = (320, 368) \<and> elem2 (item_mask it) 158 183)"
proof -
  from example_init [of 320 368 4 24] obtain ds where
    init: "KneeDataset_init (full4 (1, 320, 368, 1) 1) (full4 (1, 320, 368, 1) 1) 4 1 24
          (\<lambda>i a b. 0) (\<lambda>i a b. 0) = Inr ds" by auto
  from example_getitem [OF init, of "\<lambda>a b. 0"] obtain it ds' where
    g: "getitem ds 0 (\<lambda>a b. 0) = (Inr it, ds')" and sh: "shape2 (item_mask it) = (320, 368)"
    by auto
  have shf: "shape4 (full4 (1, 320, 368, 1) (1::complex)) = (1, 320, 368, 1)"
    by (simp add: full4_def)
  note s = init_shapes [OF init shf shf]
  have c: "clamp_index (Suc 0) 1 = Suc 0" by (simp add: clamp_index_def)
  from s have k: "shape4 (kspace ds) = (1, 320, 368, 1)"
    and m: "shape2 (mask_f ds) = (320, 368)" and A: "num_ACS ds = 24"
    by (simp_all add: c)
  have "in_slice 368 ((int 368 - 24) div 2) ((int 368 + 24) div 2) 183"
    by (simp add: in_slice_def clamp_index_def)
  then have "elem2 (item_mask it) 158 183"
    using getitem_Inr [OF g k m] A by auto
  then show ?thesis using init g sh by simp
qed

text \<open>
  The amended claim C2 at a slice of 317 by 367 with \<open>R = 4\<close> and \<open>num_ACS = 0\<close>, every
  random number being 0.9.  Row 158 and column 183 are the centre of the grid, where the
  Gaussian kernel is 1: the product of the random field and the kernel is 0.9 there, above
  the threshold, and the entry is 0 only because the block is zeroed.  Column 184 is a
  multiple of 4 and the entry is 1.
\<close>

theorem block_zero_unless_forced_witness:
  "case KneeDataset_init (full4 (1, 317, 367, 1) 1) (full4 (1, 317, 367, 1) 1) 4 1 0
          (\<lambda>i a b. 0) (\<lambda>i a b. 0) of
     Inl e \<Rightarrow> False
   | Inr ds \<Rightarrow>
       (case getitem ds 0 (\<lambda>a b. 9 / 10) of
          (Inl e, ds') \<Rightarrow> False
        | (Inr it, ds') \<Rightarrow>
            \<not> elem2 (item_mask it) 158 183 \<and> elem2 (item_mask it) 158 184 \<and>
            (case (random_f ds', gauss_kernel ds') of
               (Some rnd, Some gk) \<Rightarrow> elem2 rnd 158 183 * elem2 gk 158 183 > 6 / 10
             | _ \<Rightarrow> False))"
proof -
  from example_init [of 317 367 4 0] obtain ds where
    init: "KneeDataset_init (full4 (1, 317, 367, 1) 1) (full4 (1, 317, 367, 1) 1) 4 1 0
          (\<lambda>i a b. 0) (\<lambda>i a b. 0) = Inr ds" by auto
  from example_getitem [OF init, of "\<lambda>a b. 9 / 10"] obtain it ds' where
    g: "getitem ds 0 (\<lambda>a b. 9 / 10) = (Inr it, ds')" and sh: "shape2 (item_mask it) = (317, 367)"
    by auto
  have re: "reachable ds" by (rule reachable.constructed [OF init])
  have shf: "shape4 (full4 (1, 317, 367, 1) (1::complex)) = (1, 317, 367, 1)"
    by (simp add: full4_def)
  from init_shapes [OF init shf shf] have m: "shape2 (mask_f ds) = (317, 367)"
    and R: "R ds = 4" "num_ACS ds = 0" by simp_all
  from getitem_gauss_kernel [OF g m] obtain gk where
    gk: "gauss_gen 317 367 (1 / 2) = Inr gk" "gauss_kernel ds' = Some gk"
    and rnd: "random_f ds' = Some \<lparr>shape2 = (fst (snd (shape4 (kspace ds))),
                 fst (snd (snd (shape4 (kspace ds))))), elem2 = (\<lambda>a b. 9 / 10)\<rparr>"
    by blast
  have "elem2 gk 158 183 = 1"
    using gauss_gen_centre [of 158 183 "1 / 2" gk] gk(1) by simp
  then have t: "elem2 (\<lparr>shape2 = (fst (snd (shape4 (kspace ds))),
                 fst (snd (snd (shape4 (kspace ds))))), elem2 = (\<lambda>a b. 9 / 10)\<rparr> :: real tensor2)
                 158 183 * elem2 gk 158 183 > 6 / 10"
    by simp
  have "\<not> elem2 (item_mask it) 158 183"
    using block_zero_unless_forced [OF re g sh, of 158 183] R by simp
  moreover have "elem2 (item_mask it) 158 184"
    using block_zero_unless_forced [OF re g sh, of 158 184] R by simp
  ultimately show ?thesis using init g gk(2) rnd t by simp
qed

text \<open>
  Claim C8 as it was worded fails when \<open>num_ACS\<close> exceeds the number of columns: with 40
  columns, \<open>R = 4\<close> and \<open>num_ACS = 42\<close> the band is worded as the columns from -1 up to
  41, the slice \<open>-1:41\<close> selects column 39 only, and column 19 stays 0.
\<close>

theorem acs_band_counterexample:
  "case KneeDataset_init (full4 (1, 1, 40, 1) 1) (full4 (1, 1, 40, 1) 1) 4 1 42
          (\<lambda>i a b. 0) (\<lambda>i a b. 0) of
     Inl e \<Rightarrow> False
   | Inr ds \<Rightarrow> shape2 (mask_f ds) = (1, 40) \<and> (int 40 - 42) div 2 \<le> int 19 \<and>
               int 19 < (int 40 + 42) div 2 \<and> elem2 (mask_f ds) 0 19 = 0"
proof -
  from example_init [of 1 40 4 42] obtain ds where
    init: "KneeDataset_init (full4 (1, 1, 40, 1) 1) (full4 (1, 1, 40, 1) 1) 4 1 42
          (\<lambda>i a b. 0) (\<lambda>i a b. 0) = Inr ds" by auto
  from KneeDataset_init_Inr [OF init] obtain Nx Ny where
    msk: "init_mask Nx Ny 4 42 = Inr (mask_f ds)" by blast
  have shf: "shape4 (full4 (1, 1, 40, 1) (1::complex)) = (1, 1, 40, 1)"
    by (simp add: full4_def)
  from init_shapes [OF init shf shf] have m: "shape2 (mask_f ds) = (1, 40)" by simp
  with init_mask_Inr [OF msk] have eq: "Nx = 1" "Ny = 40" by simp_all
  have "elem2 (mask_f ds) 0 19 = 0"
    using init_mask_Inr [OF msk] unfolding eq
    by (simp add: in_slice_def in_stride_def clamp_index_def)
  then show ?thesis using init m by simp
qed

text \<open>The amended claim C8 at a slice of 320 by 368 with \<open>num_ACS = 24\<close>.\<close>

theorem acs_band_is_one_witness:
  "case KneeDataset_init (full4 (1, 320, 368, 1) 1) (full4 (1, 320, 368, 1) 1) 4 1 24
          (\<lambda>i a b. 0) (\<lambda>i a b. 0) of
     Inl e \<Rightarrow> False
   | Inr ds \<Rightarrow> elem2 (mask_f ds) 7 173 = 1"
proof -
  from example_init [of 320 368 4 24] obtain ds where
    init: "KneeDataset_init (full4 (1, 320, 368, 1) 1) (full4 (1, 320, 368, 1) 1) 4 1 24
          (\<lambda>i a b. 0) (\<lambda>i a b. 0) = Inr ds" by auto
  have shf: "shape4 (full4 (1, 320, 368, 1) (1::complex)) = (1, 320, 368, 1)"
    by (simp add: full4_def)
  from init_shapes [OF init shf shf] have m: "shape2 (mask_f ds) = (320, 368)" by simp
  have "elem2 (mask_f ds) 7 173 = 1"
    using acs_band_is_one [OF init m, of 7 173] by simp
  then show ?thesis using init by simp
qed


subsection \<open>The sizes of the split\<close>

lemma round53_small: "P < 2 ^ 53 \<Longrightarrow> round53 P = P"
proof -
  assume "P < 2 ^ 53"
  then have "bitlen (int P) \<le> 53"
    using less_power_nat_iff_bitlen [of P 53] by simp
  then show ?thesis by (simp add: round53_def)
qed

lemma dvd_gap:
  fixes a b T :: nat
  assumes "T dvd a" "T dvd b" "a < b"
  shows "a + T \<le> b"
proof -
  from assms obtain x y where "a = T * x" "b = T * y" by (auto simp: dvd_def)
  with assms(3) have "x < y" by auto
  then have "T * (x + 1) \<le> T * y" by (intro mult_le_mono2) simp
  then show ?thesis using \<open>a = T * x\<close> \<open>b = T * y\<close> by (simp add: algebra_simps)
qed

lemma round53_large:
  assumes "\<not> P < 2 ^ 53"
  shows "\<exists>s>0. 2 ^ (s + 52) \<le> P \<and> P < 2 ^ (s + 53) \<and> 2 ^ s dvd round53 P \<and>
            P < round53 P + 2 ^ s \<and> 2 * round53 P \<le> 2 * P + 2 ^ s"
proof -
  define s where "s = nat (bitlen (int P) - 53)"
  from assms have "\<not> bitlen (int P) \<le> 53"
    using less_power_nat_iff_bitlen [of P 53] by simp
  then have b: "bitlen (int P) = int s + 53" and s: "0 < s" by (simp_all add: s_def)
  have Ppos: "0 < int P" using assms by (cases "P = 0") auto
  have e: "nat (bitlen (int P) - 1) = s + 52" "nat (bitlen (int P)) = s + 53"
    using b by simp_all
  from bitlen_bounds [OF Ppos] have
    "(2::int) ^ (s + 52) \<le> int P" "int P < 2 ^ (s + 53)" unfolding e by simp_all
  then have "int (2 ^ (s + 52)) \<le> int P" "int P < int (2 ^ (s + 53))" by simp_all
  then have lo: "2 ^ (s + 52) \<le> P" and hi: "P < 2 ^ (s + 53)"
    unfolding of_nat_le_iff of_nat_less_iff by simp_all
  define T :: nat where "T = 2 ^ s"
  define h :: nat where "h = 2 ^ (s - 1)"
  have Th: "T = 2 * h" using s by (cases s) (simp_all add: T_def h_def)
  define q where "q = P div T"
  define r where "r = P mod T"
  have P: "P = q * T + r" by (simp add: q_def r_def)
  have rT: "r < T" by (simp add: r_def T_def)
  have R: "round53 P = (if r > h \<or> (r = h \<and> odd q) then q + 1 else q) * T"
    using \<open>\<not> bitlen (int P) \<le> 53\<close> s
    by (simp add: round53_def Let_def s_def [symmetric] T_def h_def q_def r_def)
  have "T dvd round53 P" unfolding R by simp
  moreover have "P < round53 P + T" unfolding R using P rT by (auto simp: algebra_simps)
  moreover have "2 * round53 P \<le> 2 * P + T"
    unfolding R using P rT Th by (auto simp: algebra_simps)
  ultimately show ?thesis using s lo hi unfolding T_def by blast
qed

lemma int_times_08_floor:
  assumes n: "n < 2 ^ 50"
  shows "int_times_08 n = (4 * n) div 5"
proof -
  define M :: nat where "M = 3602879701896397"
  define P where "P = n * M"
  define k where "k = (4 * n) div 5"
  have k: "5 * k \<le> 4 * n" "4 * n \<le> 5 * k + 4" unfolding k_def by presburger+
  have M5: "5 * M = 2 ^ 54 + 1" by (simp add: M_def)
  have "5 * P = n * (5 * M)" by (simp add: P_def)
  also have "\<dots> = n * (4 * 2 ^ 52 + 1)" unfolding M5 by simp
  finally have P5: "5 * P = 4 * n * 2 ^ 52 + n" by (simp add: algebra_simps)
  have rn: "round53 n = n" using n by (intro round53_small) simp
  have "k * 2 ^ 52 \<le> round53 P \<and> round53 P < (k + 1) * 2 ^ 52"
  proof (cases "P < 2 ^ 53")
    case True
    then have "round53 P = P" by (rule round53_small)
    moreover have "5 * (k * 2 ^ 52) \<le> 5 * P" using k P5 by simp
    moreover have "5 * P < 5 * ((k + 1) * 2 ^ 52)" using k P5 n by simp
    ultimately show ?thesis by simp
  next
    case False
    from round53_large [OF False] obtain s where s: "0 < s"
      and lo: "2 ^ (s + 52) \<le> P" and dv: "2 ^ s dvd round53 P"
      and near: "P < round53 P + 2 ^ s" and up: "2 * round53 P \<le> 2 * P + 2 ^ s"
      by blast
    define T :: nat where "T = 2 ^ s"
    have npos: "0 < n" using False by (cases "n = 0") (simp_all add: P_def)
    have "M < 2 ^ 52" by (simp add: M_def)
    then have PM: "P < n * 2 ^ 52" unfolding P_def using npos by simp
    have "T * 2 ^ 52 \<le> P" using lo by (simp add: T_def power_add)
    with PM have "T * 2 ^ 52 < n * 2 ^ 52" by simp
    then have Tn: "T < n" by simp
    have "s < 50"
    proof (rule power_less_imp_less_exp)
      show "(1::nat) < 2" by simp
      show "(2::nat) ^ s < 2 ^ 50" using Tn n unfolding T_def by (rule less_trans)
    qed
    then have s52: "s \<le> 52" by simp
    then have "T dvd 2 ^ 52" unfolding T_def by (rule le_imp_power_dvd)
    then have dk: "T dvd k * 2 ^ 52" by simp
    have kP: "k * 2 ^ 52 \<le> P" using k P5 by simp
    have low: "k * 2 ^ 52 \<le> round53 P"
    proof (rule ccontr)
      assume "\<not> k * 2 ^ 52 \<le> round53 P"
      then have "round53 P < k * 2 ^ 52" by simp
      from dvd_gap [OF dv [folded T_def] dk this] near kP show False
        by (simp add: T_def)
    qed
    have "5 * (2 * round53 P) \<le> 5 * (2 * P + T)" using up by (simp add: T_def)
    also have "\<dots> = 8 * n * 2 ^ 52 + 2 * n + 5 * T" using P5 by simp
    also have "\<dots> < 5 * (2 * ((k + 1) * 2 ^ 52))" using k Tn n by simp
    finally have "round53 P < (k + 1) * 2 ^ 52" by simp
    with low show ?thesis by simp
  qed
  then have "round53 P div 2 ^ 52 = k"
    by (intro div_nat_eqI) (simp_all add: mult.commute)
  then show ?thesis
    by (simp add: int_times_08_def rn P_def M_def k_def)
qed

lemma clamp_index_nat: "clamp_index n (int i) = min i n"
  by (simp add: clamp_index_def)

lemma length_list_slice:
  "length (list_slice xs (int a) (int b)) = min b (length xs) - min a (length xs)"
  by (auto simp: list_slice_def clamp_index_nat Let_def min_def)

lemma random_split_sizes:
  assumes n: "n_slices ds < 2 ^ 50" and p: "length perm = n_slices ds"
  shows "\<exists>train valid.
     random_split ds (int (int_times_08 (n_slices ds)),
                      int (n_slices ds) - int (int_times_08 (n_slices ds))) perm
       = Inr (train, valid) \<and>
     length train = (4 * n_slices ds) div 5 \<and>
     length valid = n_slices ds - (4 * n_slices ds) div 5 \<and>
     int ((4 * n_slices ds) div 5) = \<lfloor>0.8 * real (n_slices ds)\<rfloor>"
proof -
  define n where "n = n_slices ds"
  define k where "k = (4 * n) div 5"
  have t: "int_times_08 n = k" using n unfolding n_def k_def by (rule int_times_08_floor)
  have kn: "k \<le> n" unfolding k_def by presburger
  have fl: "\<lfloor>0.8 * real n\<rfloor> = int k"
  proof -
    have "0.8 * real n = real (4 * n) / real 5" by simp
    then show ?thesis unfolding k_def using floor_divide_of_nat_eq [of "4 * n" 5, where ?'a = real]
      by simp
  qed
  have e1: "int k - int k = 0" "int k + (int n - int k) - (int n - int k) = int k"
    "int k + (int n - int k) = int n" by simp_all
  have "random_split ds (int (int_times_08 n), int n - int (int_times_08 n)) perm =
      Inr (list_slice perm 0 (int k), list_slice perm (int k) (int n))"
    by (simp add: random_split_def len_def t n_def [symmetric] e1)
  moreover have "length (list_slice perm 0 (int k)) = k"
    using kn p length_list_slice [of perm 0 k] by (simp add: n_def)
  moreover have "length (list_slice perm (int k) (int n)) = n - k"
    using kn p by (simp add: length_list_slice n_def)
  ultimately show ?thesis using fl unfolding n_def [symmetric] k_def [symmetric] by simp
qed

text \<open>
  Claim C6, amended.  For a dataset of at least 2 and fewer than \<open>2^50\<close> slices, and
  parameters with a positive \<open>batch_size\<close> and a \<open>num_workers\<close> that is not negative,
  \<open>prepare_train_loaders\<close> returns; the training and the validation subset that it
  returns have sizes that add up to the number of slices, the training subset having
  \<open>floor (0.8 * total)\<close> of them, and the training and the validation loader read these two
  subsets.  \<open>perm\<close> is the permutation of the indices that the split draws.
\<close>

theorem split_sizes:
  assumes n: "2 \<le> n_slices ds" "n_slices ds < 2 ^ 50"
    and p: "length perm = n_slices ds"
    and b: "params ''batch_size'' = Some bs" "0 < bs"
    and w: "params ''num_workers'' = Some nw" "0 \<le> nw"
  shows "\<exists>ld dsets. prepare_train_loaders ds params perm = Inr (ld, dsets) \<and>
           length (train_dataset dsets) + length (valid_dataset dsets) = n_slices ds \<and>
           int (length (train_dataset dsets)) = \<lfloor>0.8 * real (n_slices ds)\<rfloor> \<and>
           dataset (train_loader ld) = train_dataset dsets \<and>
           dataset (valid_loader ld) = valid_dataset dsets"
proof -
  from random_split_sizes [OF n(2) p] obtain train valid where
    rs: "random_split ds (int (int_times_08 (n_slices ds)),
                      int (n_slices ds) - int (int_times_08 (n_slices ds))) perm
       = Inr (train, valid)"
    and lt: "length train = (4 * n_slices ds) div 5"
    and lv: "length valid = n_slices ds - (4 * n_slices ds) div 5"
    and fl: "int ((4 * n_slices ds) div 5) = \<lfloor>0.8 * real (n_slices ds)\<rfloor>"
    by blast
  have "0 < (4 * n_slices ds) div 5" "(4 * n_slices ds) div 5 < n_slices ds"
    using n(1) by presburger+
  with lt lv have ne: "train \<noteq> []" "valid \<noteq> []" "[0..<len ds] \<noteq> []"
    and sum: "length train + length valid = n_slices ds"
    using n(1) by (auto simp: len_def)
  have "prepare_train_loaders ds params perm =
      Inr (\<lparr>train_loader = \<lparr>dataset = train, batch_size = bs, shuffle = True,
                                drop_last = True, num_workers = nw\<rparr>,
             valid_loader = \<lparr>dataset = valid, batch_size = bs, shuffle = True,
                                drop_last = True, num_workers = nw\<rparr>,
             full_loader = \<lparr>dataset = [0..<len ds], batch_size = bs, shuffle = True,
                               drop_last = False, num_workers = nw\<rparr>\<rparr>,
           \<lparr>train_dataset = train, valid_dataset = valid\<rparr>)"
    unfolding prepare_train_loaders_def Let_def rs
    using ne b(2) w(2) by (simp add: dict_item_def b(1) w(1) DataLoader_init_def)
  then show ?thesis using sum lt fl by simp
qed

text \<open>
  Claim C6 as it was worded fails at a dataset of one slice: \<open>int(1 * 0.8)\<close> is 0, the
  training subset is empty, and the random sampler of its loader rejects it, so that no
  split is returned.
\<close>

theorem split_sizes_counterexample:
  "case KneeDataset_init (full4 (1, 2, 2, 1) 1) (full4 (1, 2, 2, 1) 1) 4 1 24
          (\<lambda>i a b. 0) (\<lambda>i a b. 0) of
     Inl e \<Rightarrow> False
   | Inr ds \<Rightarrow> n_slices ds = 1 \<and>
       prepare_train_loaders ds [''batch_size'' \<mapsto> 1, ''num_workers'' \<mapsto> 0] [0]
         = Inl ValueError"
proof -
  from example_init [of 2 2 4 24] obtain ds where
    init: "KneeDataset_init (full4 (1, 2, 2, 1) 1) (full4 (1, 2, 2, 1) 1) 4 1 24
          (\<lambda>i a b. 0) (\<lambda>i a b. 0) = Inr ds" by auto
  have shf: "shape4 (full4 (1, 2, 2, 1) (1::complex)) = (1, 2, 2, 1)"
    by (simp add: full4_def)
  have c: "clamp_index (Suc 0) 1 = Suc 0" by (simp add: clamp_index_def)
  from init_shapes [OF init shf shf] have ns: "n_slices ds = 1" by (simp add: c)
  have t: "int_times_08 1 = 0"
    using int_times_08_floor [of 1] by simp
  have "prepare_train_loaders ds [''batch_size'' \<mapsto> 1, ''num_workers'' \<mapsto> 0] [0]
         = Inl ValueError"
    by (simp add: prepare_train_loaders_def Let_def ns t random_split_def len_def
        list_slice_def clamp_index_def dict_item_def DataLoader_init_def)
  then show ?thesis using init ns by simp
qed

text \<open>The amended claim C6 at ten slices: eight for training, two for validation.\<close>

theorem split_sizes_witness:
  "\<exists>ld dsets.
     prepare_train_loaders
       \<lparr>num_ACS = 24, kspace = full4 (10, 1, 1, 1) 1, n_slices = 10,
        sens_map = full4 (10, 1, 1, 1) 1, mask_f = zeros2 (1, 1),
        x0 = impulse3 (10, 1, 1), xref = impulse3 (10, 1, 1), R = 4,
        gauss_kernel = None, random_f = None, rand_mask = None\<rparr>
       [''batch_size'' \<mapsto> 2, ''num_workers'' \<mapsto> 0]
       [3, 1, 4, 0, 5, 9, 2, 6, 8, 7] = Inr (ld, dsets) \<and>
     length (train_dataset dsets) = 8 \<and> length (valid_dataset dsets) = 2"
  using split_sizes
    [of "\<lparr>num_ACS = 24, kspace = full4 (10, 1, 1, 1) 1, n_slices = 10,
        sens_map = full4 (10, 1, 1, 1) 1, mask_f = zeros2 (1, 1),
        x0 = impulse3 (10, 1, 1), xref = impulse3 (10, 1, 1), R = 4,
        gauss_kernel = None, random_f = None, rand_mask = None\<rparr>"
        "[3, 1, 4, 0, 5, 9, 2, 6, 8, 7]"
        "[''batch_size'' \<mapsto> 2, ''num_workers'' \<mapsto> 0]" 2 0]
  by auto

subsection \<open>The error of a tensor against itself\<close>

lemma np_sub_self: "np_sub x x = Inr (map (\<lambda>i. 0) [0..<length x])"
  by (simp add: np_sub_def bdim_def)

lemma sum_squares_nonneg: "0 \<le> sum_list (map (\<lambda>v. v ^ 2) (x :: real list))"
  by (induction x) simp_all

lemma sum_squares_zero_iff:
  "sum_list (map (\<lambda>v. v ^ 2) (x :: real list)) = 0 \<longleftrightarrow> (\<forall>v\<in>set x. v = 0)"
proof (induction x)
  case Nil
  then show ?case by simp
next
  case (Cons a x)
  have "a ^ 2 + sum_list (map (\<lambda>v. v ^ 2) x) = 0 \<longleftrightarrow>
        a ^ 2 = 0 \<and> sum_list (map (\<lambda>v. v ^ 2) x) = 0"
    by (rule add_nonneg_eq_0_iff [OF zero_le_power2 sum_squares_nonneg])
  with Cons show ?case by simp
qed

lemma sum_squares_zeros: "sum_list (map (\<lambda>v. v ^ 2) (map (\<lambda>i. 0 :: real) xs)) = 0"
  by (induction xs) simp_all




subsection \<open>The encoding operator\<close>

lemma same4_refl [simp]: "same4 t t"
  by (cases "shape4 t") (simp add: same4_def)

lemma same4_I:
  assumes "shape4 t = (B, Nx, Ny, Nc)" "shape4 u = (B, Nx, Ny, Nc)"
    and "\<And>i a b c. i < B \<Longrightarrow> a < Nx \<Longrightarrow> b < Ny \<Longrightarrow> c < Nc \<Longrightarrow> elem4 t i a b c = elem4 u i a b c"
  shows "same4 t u"
  using assms by (simp add: same4_def)

lemma same4_D:
  assumes "same4 t u" "shape4 t = (B, Nx, Ny, Nc)"
  shows "shape4 u = (B, Nx, Ny, Nc)"
    and "i < B \<Longrightarrow> a < Nx \<Longrightarrow> b < Ny \<Longrightarrow> c < Nc \<Longrightarrow> elem4 t i a b c = elem4 u i a b c"
  using assms by (simp_all add: same4_def)

lemma fft2_Inr:
  assumes sh: "shape4 t = (B, Nx, Ny, Nc)"
  shows "fft2 t = Inr y \<longleftrightarrow> 0 < Nx \<and> 0 < Ny \<and>
    y = t\<lparr>elem4 := (\<lambda>i a b c.
      (\<Sum>j<Nx. \<Sum>k<Ny. elem4 t i ((j + Nx div 2) mod Nx) ((k + Ny div 2) mod Ny) c
          * twiddle (- 1) Nx ((a + (Nx - Nx div 2)) mod Nx) j
          * twiddle (- 1) Ny ((b + (Ny - Ny div 2)) mod Ny) k)
        / complex_of_real (sqrt (real (Nx * Ny))))\<rparr>"
proof -
  have shi: "shape4 (ifftshift t) = (B, Nx, Ny, Nc)" using sh by simp
  show ?thesis
    unfolding fft2_def fftn_def bindE_Inr_iff dft2_Inr [OF shi]
    by (auto simp: fftshift_def ifftshift_def sh)
qed

lemma ifft2_Inr:
  assumes sh: "shape4 t = (B, Nx, Ny, Nc)"
  shows "ifft2 t = Inr y \<longleftrightarrow> 0 < Nx \<and> 0 < Ny \<and>
    y = t\<lparr>elem4 := (\<lambda>i a b c.
      (\<Sum>j<Nx. \<Sum>k<Ny. elem4 t i ((j + (Nx - Nx div 2)) mod Nx) ((k + (Ny - Ny div 2)) mod Ny) c
          * twiddle 1 Nx ((a + Nx div 2) mod Nx) j
          * twiddle 1 Ny ((b + Ny div 2) mod Ny) k)
        / complex_of_real (sqrt (real (Nx * Ny))))\<rparr>"
proof -
  have shi: "shape4 (fftshift t) = (B, Nx, Ny, Nc)" using sh by simp
  show ?thesis
    unfolding ifft2_def ifftn_def bindE_Inr_iff dft2_Inr [OF shi]
    by (auto simp: fftshift_def ifftshift_def sh)
qed

lemma fft2_Inl:
  assumes sh: "shape4 t = (B, Nx, Ny, Nc)"
  shows "fft2 t = Inl e \<longleftrightarrow> (Nx = 0 \<or> Ny = 0) \<and> e = RuntimeError"
  using sh by (auto simp: fft2_def fftn_def dft2_def bindE_def)

lemma fft2_same4:
  assumes "same4 t u"
  shows "same_result4 (fft2 t) (fft2 u)"
proof -
  obtain B Nx Ny Nc where sh: "shape4 t = (B, Nx, Ny, Nc)" by (cases "shape4 t")
  note shu = same4_D(1) [OF assms sh]
  note eq = same4_D(2) [OF assms sh]
  show ?thesis
  proof (cases "0 < Nx \<and> 0 < Ny")
    case False
    then have "fft2 t = Inl RuntimeError" "fft2 u = Inl RuntimeError"
      using fft2_Inl [OF sh] fft2_Inl [OF shu] by auto
    then show ?thesis by (simp add: same_result4_def)
  next
    case True
    then obtain y y' where y: "fft2 t = Inr y" and y': "fft2 u = Inr y'"
      using fft2_Inr [OF sh] fft2_Inr [OF shu] by auto
    have "same4 y y'"
    proof (rule same4_I [of _ B Nx Ny Nc])
      show "shape4 y = (B, Nx, Ny, Nc)" using fft2_shape [OF y] sh by simp
      show "shape4 y' = (B, Nx, Ny, Nc)" using fft2_shape [OF y'] shu by simp
      fix i a b c assume r: "i < B" "a < Nx" "b < Ny" "c < Nc"
      have e: "elem4 t i ((j + Nx div 2) mod Nx) ((k + Ny div 2) mod Ny) c =
               elem4 u i ((j + Nx div 2) mod Nx) ((k + Ny div 2) mod Ny) c" for j k
        using True r by (intro eq) simp_all
      show "elem4 y i a b c = elem4 y' i a b c"
        using y y' unfolding fft2_Inr [OF sh] fft2_Inr [OF shu] by (simp add: e)
    qed
    then show ?thesis using y y' by (simp add: same_result4_def)
  qed
qed

lemma coil_images_same4:
  assumes x: "shape3 x = (B, Nx, Ny)" and S: "shape4 S = (B, Nx, Ny, Nc)"
  shows "\<exists>sx. mul4 S (unsqueeze_last x) = Inr sx \<and> same4 sx (coil_images x S)"
proof -
  have b: "bdim Nc (Suc 0) = Some Nc" by (simp add: bdim_def)
  define sx where "sx = \<lparr>shape4 = (B, Nx, Ny, Nc),
             elem4 = (\<lambda>i a b c.
                elem4 S (bidx B i) (bidx Nx a) (bidx Ny b) (bidx Nc c)
                  * elem4 (unsqueeze_last x) (bidx B i) (bidx Nx a) (bidx Ny b) (bidx 1 c))\<rparr>"
  have sx: "mul4 S (unsqueeze_last x) = Inr sx"
    unfolding mul4_Inr [OF S shape4_unsqueeze_last [OF x]] sx_def by simp
  have "same4 sx (coil_images x S)"
    by (rule same4_I [of _ B Nx Ny Nc]) (simp_all add: coil_images_def S sx_def)
  with sx show ?thesis by blast
qed

lemma apply_mask_same4:
  assumes y: "shape4 y = (B, Nx, Ny, Nc)" and m: "shape2 m = (Nx, Ny)" and s: "same4 y y'"
  shows "\<exists>z. mul4 y (unsqueeze_both m) = Inr z \<and> same4 z (apply_mask y' m)"
proof -
  define z where "z = \<lparr>shape4 = (B, Nx, Ny, Nc),
             elem4 = (\<lambda>i a b c.
                elem4 y (bidx B i) (bidx Nx a) (bidx Ny b) (bidx Nc c)
                  * elem4 (unsqueeze_both m) (bidx 1 i) (bidx Nx a) (bidx Ny b) (bidx 1 c))\<rparr>"
  have z: "mul4 y (unsqueeze_both m) = Inr z"
    unfolding mul4_Inr [OF y shape4_unsqueeze_both [OF m]] z_def by simp
  have shy': "shape4 y' = (B, Nx, Ny, Nc)" by (rule same4_D(1) [OF s y])
  have "same4 z (apply_mask y' m)"
  proof (rule same4_I [of _ B Nx Ny Nc])
    show "shape4 z = (B, Nx, Ny, Nc)" by (simp add: z_def)
    show "shape4 (apply_mask y' m) = (B, Nx, Ny, Nc)" by (simp add: apply_mask_def shy')
    fix i a b c assume r: "i < B" "a < Nx" "b < Ny" "c < Nc"
    then show "elem4 z i a b c = elem4 (apply_mask y' m) i a b c"
      using same4_D(2) [OF s y r] by (simp add: z_def apply_mask_def)
  qed
  with z show ?thesis by blast
qed

text \<open>
  Claim C9.  For an image \<open>x\<close> of shape \<open>[B, Nx, Ny]\<close> and a sensitivity map \<open>S\<close> of
  shape \<open>[B, Nx, Ny, Nc]\<close>, \<open>encode(x, S, None)\<close> returns \<open>fft2\<close> of the product of
  \<open>S\<close> with \<open>x\<close>, the same \<open>x\<close> for every coil, and no mask is applied; with a mask \<open>m\<close>
  of shape \<open>[Nx, Ny]\<close> it returns that transform multiplied entry by entry by \<open>m\<close>, the
  same \<open>m\<close> for every slice and coil.  Both sides raise the same error when an axis of the
  transform is empty.
\<close>

theorem encode_refines_spec:
  assumes x: "shape3 x = (B, Nx, Ny)" and S: "shape4 S = (B, Nx, Ny, Nc)"
    and m: "case msk of None \<Rightarrow> True | Some m \<Rightarrow> shape2 m = (Nx, Ny)"
  shows "same_result4 (encode x S msk) (encode_spec x S msk)"
proof -
  from coil_images_same4 [OF x S] obtain sx where
    sx: "mul4 S (unsqueeze_last x) = Inr sx" and s: "same4 sx (coil_images x S)" by blast
  note f = fft2_same4 [OF s]
  have shc: "shape4 (coil_images x S) = (B, Nx, Ny, Nc)" by (simp add: coil_images_def S)
  have shsx: "shape4 sx = (B, Nx, Ny, Nc)" using s shc by (simp add: same4_def)
  show ?thesis
  proof (cases msk)
    case None
    then show ?thesis using sx f by (simp add: encode_def encode_spec_def)
  next
    case (Some mk)
    with m have shm: "shape2 mk = (Nx, Ny)" by simp
    show ?thesis
    proof (cases "fft2 sx")
      case (Inl e)
      with f have "fft2 (coil_images x S) = Inl e"
        by (cases "fft2 (coil_images x S)") (simp_all add: same_result4_def)
      with Inl Some sx show ?thesis
        by (simp add: encode_def encode_spec_def same_result4_def)
    next
      case (Inr y)
      with f obtain y' where y': "fft2 (coil_images x S) = Inr y'" and yy: "same4 y y'"
        by (cases "fft2 (coil_images x S)") (simp_all add: same_result4_def)
      have shy: "shape4 y = (B, Nx, Ny, Nc)"
        using fft2_shape [OF Inr] shsx by simp
      from apply_mask_same4 [OF shy shm yy] obtain z where
        "mul4 y (unsqueeze_both mk) = Inr z" "same4 z (apply_mask y' mk)" by blast
      with Inr y' Some sx show ?thesis
        by (simp add: encode_def encode_spec_def same_result4_def)
    qed
  qed
qed

text \<open>Claim C9 at an image of 2 by 2 with two coils, without a mask and with one.\<close>

theorem encode_refines_spec_witness:
  "same_result4 (encode (impulse3 (1, 2, 2)) (full4 (1, 2, 2, 2) 1) None)
                (encode_spec (impulse3 (1, 2, 2)) (full4 (1, 2, 2, 2) 1) None) \<and>
   same_result4 (encode (impulse3 (1, 2, 2)) (full4 (1, 2, 2, 2) 1) (Some (zeros2 (2, 2))))
                (encode_spec (impulse3 (1, 2, 2)) (full4 (1, 2, 2, 2) 1) (Some (zeros2 (2, 2))))"
  using encode_refines_spec [of "impulse3 (1, 2, 2)" 1 2 2 "full4 (1, 2, 2, 2) 1" 2 None]
    encode_refines_spec [of "impulse3 (1, 2, 2)" 1 2 2 "full4 (1, 2, 2, 2) 1" 2
      "Some (zeros2 (2, 2))"]
  by (simp add: impulse3_def full4_def zeros2_def)

subsection \<open>The two transforms in a row\<close>

lemma sum3: "(\<Sum>j<3. f j) = f 0 + f 1 + f (2::nat)"
  by (simp add: numeral_3_eq_3 numeral_2_eq_2 ac_simps)

lemma cis_third: "cis (4 * pi / 3) + cis (- (4 * pi / 3)) = - 1"
proof -
  have "cos (4 * pi / 3) = cos (pi + pi / 3)" by (simp add: field_simps)
  also have "\<dots> = - cos (pi / 3)" by (rule cos_periodic_pi2)
  finally have "cos (4 * pi / 3) = - 1 / 2" by (simp add: cos_60)
  then show ?thesis by (simp add: complex_eq_iff)
qed

lemma twiddle_zero [simp]: "twiddle sg n 0 j = 1" "twiddle sg n a 0 = 1"
  by (simp_all add: twiddle_def)

lemma fft2_impulse3:
  "\<exists>y. fft2 (impulse4 (1, 3, 1, 1)) = Inr y \<and> shape4 y = (1, 3, 1, 1) \<and>
     (\<forall>i a b c. elem4 y i a b c = twiddle (- 1) 3 ((a + 2) mod 3) 2 / complex_of_real (sqrt 3))"
proof -
  have sh: "shape4 (impulse4 (1, 3, 1, 1)) = (1, 3, 1, 1)" by (simp add: impulse4_def)
  show ?thesis
    unfolding fft2_Inr [OF sh]
    by (simp add: sum3 impulse4_def)
qed

lemma tw_a: "twiddle (- 1) 3 1 2 = cis (- (4 * pi / 3))"
  by (simp add: twiddle_def)

lemma tw_b: "twiddle 1 3 1 2 = cis (4 * pi / 3)"
  by (simp add: twiddle_def)

lemma tw_c: "twiddle (- 1) 3 2 2 * twiddle 1 3 1 1 = 1"
proof -
  have "twiddle (- 1) 3 2 2 * twiddle 1 3 1 1 = cis (- (8 * pi / 3) + 2 * pi / 3)"
    by (simp add: twiddle_def cis_mult)
  also have "- (8 * pi / 3) + 2 * pi / 3 = - (2 * pi)" by (simp add: field_simps)
  also have "cis (- (2 * pi)) = 1" by (simp add: cis_cnj [symmetric] del: cis_cnj)
  finally show ?thesis .
qed

lemma sqrt3_sq: "complex_of_real (sqrt 3) * complex_of_real (sqrt 3) = 3"
  by (simp flip: of_real_mult)

lemma ifft2_fft2_impulse3:
  "\<exists>y z. fft2 (impulse4 (1, 3, 1, 1)) = Inr y \<and> ifft2 y = Inr z \<and>
      shape4 z = (1, 3, 1, 1) \<and> elem4 z 0 0 0 0 = 0"
proof -
  from fft2_impulse3 obtain y where y: "fft2 (impulse4 (1, 3, 1, 1)) = Inr y"
    and sh: "shape4 y = (1, 3, 1, 1)"
    and el: "\<And>i a b c. elem4 y i a b c =
        twiddle (- 1) 3 ((a + 2) mod 3) 2 / complex_of_real (sqrt 3)"
    by blast
  define z where "z = y\<lparr>elem4 := (\<lambda>i a b c.
      (\<Sum>j<3. \<Sum>k<1. elem4 y i ((j + (3 - 3 div 2)) mod 3) ((k + (1 - 1 div 2)) mod 1) c
          * twiddle 1 3 ((a + 3 div 2) mod 3) j
          * twiddle 1 1 ((b + 1 div 2) mod 1) k)
        / complex_of_real (sqrt (real (3 * 1))))\<rparr>"
  have z: "ifft2 y = Inr z" unfolding ifft2_Inr [OF sh] z_def by simp
  have "elem4 z 0 0 0 0 =
     (twiddle (- 1) 3 1 2 + twiddle (- 1) 3 2 2 * twiddle 1 3 1 1 + twiddle 1 3 1 2) / 3"
    by (simp add: z_def sum3 el add_divide_distrib sqrt3_sq flip: numeral_2_eq_2)
  also have "\<dots> = 0"
    unfolding tw_c unfolding tw_a tw_b using cis_third by (simp add: algebra_simps)
  finally show ?thesis using y z sh by (auto simp: z_def)
qed

lemma ifft2_Inl:
  assumes sh: "shape4 t = (B, Nx, Ny, Nc)"
  shows "ifft2 t = Inl e \<longleftrightarrow> (Nx = 0 \<or> Ny = 0) \<and> e = RuntimeError"
  using sh by (auto simp: ifft2_def ifftn_def dft2_def bindE_def)

lemma ifft2_same4:
  assumes "same4 t u"
  shows "same_result4 (ifft2 t) (ifft2 u)"
proof -
  obtain B Nx Ny Nc where sh: "shape4 t = (B, Nx, Ny, Nc)" by (cases "shape4 t")
  note shu = same4_D(1) [OF assms sh]
  note eq = same4_D(2) [OF assms sh]
  show ?thesis
  proof (cases "0 < Nx \<and> 0 < Ny")
    case False
    then have "ifft2 t = Inl RuntimeError" "ifft2 u = Inl RuntimeError"
      using ifft2_Inl [OF sh] ifft2_Inl [OF shu] by auto
    then show ?thesis by (simp add: same_result4_def)
  next
    case True
    then obtain y y' where y: "ifft2 t = Inr y" and y': "ifft2 u = Inr y'"
      using ifft2_Inr [OF sh] ifft2_Inr [OF shu] by auto
    have "same4 y y'"
    proof (rule same4_I [of _ B Nx Ny Nc])
      show "shape4 y = (B, Nx, Ny, Nc)" using ifft2_shape [OF y] sh by simp
      show "shape4 y' = (B, Nx, Ny, Nc)" using ifft2_shape [OF y'] shu by simp
      fix i a b c assume r: "i < B" "a < Nx" "b < Ny" "c < Nc"
      have e: "elem4 t i ((j + (Nx - Nx div 2)) mod Nx) ((k + (Ny - Ny div 2)) mod Ny) c =
               elem4 u i ((j + (Nx - Nx div 2)) mod Nx) ((k + (Ny - Ny div 2)) mod Ny) c"
        for j k
        using True r by (intro eq) simp_all
      have e': "elem4 t i ((j + Nx - Nx div 2) mod Nx) ((k + Ny - Ny div 2) mod Ny) c =
               elem4 u i ((j + Nx - Nx div 2) mod Nx) ((k + Ny - Ny div 2) mod Ny) c"
        for j k
        using e [of j k] by simp
      show "elem4 y i a b c = elem4 y' i a b c"
        using y y' unfolding ifft2_Inr [OF sh] ifft2_Inr [OF shu] by (simp add: e')
    qed
    then show ?thesis using y y' by (simp add: same_result4_def)
  qed
qed

lemma same_result4_Inr:
  "same_result4 r (Inr u) \<Longrightarrow> \<exists>t. r = Inr t \<and> same4 t u"
  by (cases r) (simp_all add: same_result4_def)

lemma same4_sym: "same4 t u \<Longrightarrow> same4 u t"
  by (cases "shape4 t") (auto simp: same4_def)

text \<open>The two transforms in a row on an impulse along an axis of length 3.\<close>

lemma roundtrip_impulse3:
  assumes t: "same4 t (impulse4 (1, 3, 1, 1))"
  shows "\<exists>y z. fft2 t = Inr y \<and> ifft2 y = Inr z \<and> shape4 z = (1, 3, 1, 1) \<and>
                elem4 z 0 0 0 0 = 0"
proof -
  from ifft2_fft2_impulse3 obtain y0 z0 where
    y0: "fft2 (impulse4 (1, 3, 1, 1)) = Inr y0" and z0: "ifft2 y0 = Inr z0"
    and sh: "shape4 z0 = (1, 3, 1, 1)" and el: "elem4 z0 0 0 0 0 = 0"
    by blast
  from fft2_same4 [OF t] y0 obtain y where y: "fft2 t = Inr y" and yy: "same4 y y0"
    using same_result4_Inr by metis
  from ifft2_same4 [OF yy] z0 obtain z where z: "ifft2 y = Inr z" and zz: "same4 z z0"
    using same_result4_Inr by metis
  have "shape4 z = (1, 3, 1, 1)" using zz sh by (simp add: same4_def)
  moreover have "elem4 z 0 0 0 0 = elem4 z0 0 0 0 0"
    using same4_D(2) [OF same4_sym [OF zz] sh, of 0 0 0 0] by simp
  ultimately show ?thesis using y z el by auto
qed

text \<open>
  Claim C3 at an impulse along an axis of length 3, the tensor of shape \<open>[1, 3, 1, 1]\<close>
  with the entries 1, 0, 0: \<open>ifft2(fft2(x))\<close> has the entry 0 where \<open>x\<close> has the entry
  1.  \<open>ifft2\<close> shifts with \<open>fftshift\<close> before and \<open>ifftshift\<close> after its transform,
  the order of \<open>fft2\<close> reversed instead of repeated; along an axis of odd length the two
  shifts differ by one place and \<open>ifft2\<close> is not the inverse of \<open>fft2\<close>.
\<close>

theorem ifft2_fft2_odd_length:
  "case bindE (fft2 (impulse4 (1, 3, 1, 1))) ifft2 of
     Inl e \<Rightarrow> False
   | Inr z \<Rightarrow> shape4 z = (1, 3, 1, 1) \<and> elem4 z 0 0 0 0 = 0 \<and>
              elem4 (impulse4 (1, 3, 1, 1)) 0 0 0 0 = 1"
proof -
  from roundtrip_impulse3 [OF same4_refl] obtain y z where
    "fft2 (impulse4 (1, 3, 1, 1)) = Inr y" "ifft2 y = Inr z" "shape4 z = (1, 3, 1, 1)"
    "elem4 z 0 0 0 0 = 0" by blast
  then show ?thesis by (simp add: impulse4_def)
qed

text \<open>
  Claim C4 at the same impulse, as an image of shape \<open>[1, 3, 1]\<close>, with one coil of
  sensitivity 1 at every pixel, which is orthonormal per pixel:
  \<open>decode(encode(x, S, None), S)\<close> has the entry 0 where \<open>x\<close> has the entry 1.
\<close>

theorem decode_encode_odd_length:
  "case bindE (encode (impulse3 (1, 3, 1)) (full4 (1, 3, 1, 1) 1) None)
          (\<lambda>y. decode y (full4 (1, 3, 1, 1) 1)) of
     Inl e \<Rightarrow> False
   | Inr d \<Rightarrow> shape3 d = (1, 3, 1) \<and> elem3 d 0 0 0 = 0 \<and>
              elem3 (impulse3 (1, 3, 1)) 0 0 0 = 1 \<and>
              (\<Sum>c<1. elem4 (full4 (1, 3, 1, 1) 1) 0 0 0 c
                       * cnj (elem4 (full4 (1, 3, 1, 1) 1) 0 0 0 c)) = (1::complex) \<and>
              (\<Sum>c<1. elem4 (full4 (1, 3, 1, 1) 1) 0 1 0 c
                       * cnj (elem4 (full4 (1, 3, 1, 1) 1) 0 1 0 c)) = (1::complex) \<and>
              (\<Sum>c<1. elem4 (full4 (1, 3, 1, 1) 1) 0 2 0 c
                       * cnj (elem4 (full4 (1, 3, 1, 1) 1) 0 2 0 c)) = (1::complex)"
proof -
  let ?S = "full4 (1, 3, 1, 1) (1::complex)"
  let ?x = "impulse3 (1, 3, 1)"
  have S: "shape4 ?S = (1, 3, 1, 1)" by (simp add: full4_def)
  have x: "shape3 ?x = (1, 3, 1)" by (simp add: impulse3_def)
  from coil_images_same4 [OF x S] obtain sx where
    sx: "mul4 ?S (unsqueeze_last ?x) = Inr sx" and s: "same4 sx (coil_images ?x ?S)" by blast
  have "same4 (coil_images ?x ?S) (impulse4 (1, 3, 1, 1))"
    by (rule same4_I [of _ 1 3 1 1])
       (simp_all add: coil_images_def full4_def impulse3_def impulse4_def)
  with s have "same4 sx (impulse4 (1, 3, 1, 1))"
    by (auto simp: same4_def)
  from roundtrip_impulse3 [OF this] obtain y z where
    y: "fft2 sx = Inr y" and z: "ifft2 y = Inr z" and shz: "shape4 z = (1, 3, 1, 1)"
    and el: "elem4 z 0 0 0 0 = 0" by blast
  have shS: "shape4 (conj4 ?S) = (1, 3, 1, 1)" using S by simp
  define w where "w = \<lparr>shape4 = (1, 3, 1, 1),
       elem4 = (\<lambda>i a b c. elem4 z (bidx 1 i) (bidx 3 a) (bidx 1 b) (bidx 1 c)
                  * elem4 (conj4 ?S) (bidx 1 i) (bidx 3 a) (bidx 1 b) (bidx 1 c))\<rparr>"
  have w: "mul4 z (conj4 ?S) = Inr w"
    unfolding mul4_Inr [OF shz shS] w_def by simp
  have shw: "shape4 w = (1, 3, 1, 1)" by (simp add: w_def)
  have d: "decode y ?S = Inr (sum_axis3 w)"
    unfolding decode_Inr using z w by blast
  have "elem3 (sum_axis3 w) 0 0 0 = 0"
    unfolding elem3_sum_axis3 [OF shw] by (simp add: w_def el bidx_def)
  then show ?thesis
    using sx y d shape3_sum_axis3 [OF shw]
    by (simp add: encode_def impulse3_def full4_def)
qed

subsection \<open>The two transforms in a row, on axes of even length\<close>

text \<open>
  Along an axis of even length, and of length 1, \<open>fftshift\<close> and \<open>ifftshift\<close> are the
  same shift, and the two wrappers are inverse to each other.  The proof is the inversion of
  the discrete Fourier transform: the kernels of the two directions are orthogonal.
\<close>

lemma twiddle_pair:
  "twiddle 1 n p j * twiddle (- 1) n j q = cis (2 * pi * (real p - real q) / real n) ^ j"
proof -
  have "2 * pi * real p * real j / real n + - (2 * pi * real j * real q / real n) =
        real j * (2 * pi * (real p - real q) / real n)"
    by (simp add: diff_divide_distrib right_diff_distrib mult_ac)
  then show ?thesis by (simp add: twiddle_def cis_mult DeMoivre)
qed

lemma cis_unit_angle:
  assumes n: "0 < n" and p: "p < n" and q: "q < n" and pq: "p \<noteq> q"
  shows "cis (2 * pi * (real p - real q) / real n) \<noteq> 1"
proof
  assume "cis (2 * pi * (real p - real q) / real n) = 1"
  then have "cos (2 * pi * (real p - real q) / real n) = 1"
    by (simp add: complex_eq_iff)
  then obtain k :: int where k: "2 * pi * (real p - real q) / real n = of_int k * 2 * pi"
    unfolding cos_one_2pi_int by blast
  then have "(2 * pi) * ((real p - real q) / real n) = (2 * pi) * of_int k"
    by (simp add: mult_ac)
  then have "(real p - real q) / real n = of_int k"
    by (simp only: mult_cancel_left) simp
  then have "real p - real q = of_int k * real n"
    using n by (simp add: field_simps)
  then have "real_of_int (int p - int q) = real_of_int (k * int n)" by simp
  then have e: "int p - int q = k * int n" by (simp only: of_int_eq_iff)
  have "\<bar>int p - int q\<bar> < int n" using p q by linarith
  with e have "\<bar>k\<bar> * int n < 1 * int n" by (simp add: abs_mult)
  then have "\<bar>k\<bar> < 1" using n by (simp only: mult_less_cancel_right)
  then have "k = 0" by simp
  with e pq show False by simp
qed

lemma twiddle_orthogonal:
  assumes n: "0 < n" and p: "p < n" and q: "q < n"
  shows "(\<Sum>j<n. twiddle 1 n p j * twiddle (- 1) n j q) = (if p = q then of_nat n else 0)"
proof (cases "p = q")
  case True
  then show ?thesis by (simp add: twiddle_pair)
next
  case False
  let ?w = "cis (2 * pi * (real p - real q) / real n)"
  have w: "?w \<noteq> 1" by (rule cis_unit_angle [OF n p q False])
  have "real n * (2 * pi * (real p - real q) / real n) = 2 * pi * of_int (int p - int q)"
    using n by simp
  then have "?w ^ n = cis (2 * pi * of_int (int p - int q))"
    by (simp only: DeMoivre)
  also have "\<dots> = 1" by (rule cis_multiple_2pi) simp
  finally have "?w ^ n = 1" .
  then have "(\<Sum>j<n. ?w ^ j) = 0" using geometric_sum [OF w, of n] by simp
  with False show ?thesis by (simp add: twiddle_pair)
qed

text \<open>A transform along one axis is undone by the conjugate transform.\<close>

lemma inversion_1d:
  fixes u :: "nat \<Rightarrow> complex"
  assumes n: "0 < n" and p: "p < n"
  shows "(\<Sum>j<n. (\<Sum>q<n. u q * twiddle (- 1) n j q) * twiddle 1 n p j) = of_nat n * u p"
proof -
  have "(\<Sum>j<n. (\<Sum>q<n. u q * twiddle (- 1) n j q) * twiddle 1 n p j) =
        (\<Sum>j<n. \<Sum>q<n. u q * (twiddle 1 n p j * twiddle (- 1) n j q))"
    unfolding sum_distrib_right by (intro sum.cong refl) (simp add: mult_ac)
  also have "\<dots> = (\<Sum>q<n. \<Sum>j<n. u q * (twiddle 1 n p j * twiddle (- 1) n j q))"
    by (rule sum.swap)
  also have "\<dots> = (\<Sum>q<n. u q * (\<Sum>j<n. twiddle 1 n p j * twiddle (- 1) n j q))"
    by (simp add: sum_distrib_left)
  also have "\<dots> = (\<Sum>q<n. u q * (if p = q then of_nat n else 0))"
    by (intro sum.cong refl) (simp add: twiddle_orthogonal [OF n p])
  also have "\<dots> = (\<Sum>q<n. if q = p then of_nat n * u q else 0)"
    by (intro sum.cong refl) auto
  also have "\<dots> = of_nat n * u p" using p by (simp add: sum.delta)
  finally show ?thesis .
qed

lemma inversion_2d:
  fixes X :: "nat \<Rightarrow> nat \<Rightarrow> complex"
  assumes N: "0 < N" and M: "0 < M" and A: "A < N" and B: "B < M"
  shows "(\<Sum>j<N. \<Sum>k<M.
            (\<Sum>p<N. \<Sum>q<M. X p q * twiddle (- 1) N j p * twiddle (- 1) M k q)
              * twiddle 1 N A j * twiddle 1 M B k) = of_nat N * of_nat M * X A B"
proof -
  have inner: "(\<Sum>k<M.
            (\<Sum>p<N. \<Sum>q<M. X p q * twiddle (- 1) N j p * twiddle (- 1) M k q)
              * twiddle 1 N A j * twiddle 1 M B k) =
        (\<Sum>p<N. (of_nat M * X p B) * twiddle (- 1) N j p) * twiddle 1 N A j" for j
  proof -
    have "(\<Sum>k<M.
            (\<Sum>p<N. \<Sum>q<M. X p q * twiddle (- 1) N j p * twiddle (- 1) M k q)
              * twiddle 1 N A j * twiddle 1 M B k) =
          (\<Sum>k<M. \<Sum>p<N. twiddle (- 1) N j p * twiddle 1 N A j *
              ((\<Sum>q<M. X p q * twiddle (- 1) M k q) * twiddle 1 M B k))"
      unfolding sum_distrib_right
      by (intro sum.cong refl) (simp add: sum_distrib_left sum_distrib_right mult_ac)
    also have "\<dots> = (\<Sum>p<N. \<Sum>k<M. twiddle (- 1) N j p * twiddle 1 N A j *
              ((\<Sum>q<M. X p q * twiddle (- 1) M k q) * twiddle 1 M B k))"
      by (rule sum.swap)
    also have "\<dots> = (\<Sum>p<N. twiddle (- 1) N j p * twiddle 1 N A j *
              (\<Sum>k<M. (\<Sum>q<M. X p q * twiddle (- 1) M k q) * twiddle 1 M B k))"
      by (simp only: sum_distrib_left)
    also have "\<dots> = (\<Sum>p<N. twiddle (- 1) N j p * twiddle 1 N A j * (of_nat M * X p B))"
      by (simp only: inversion_1d [OF M B])
    also have "\<dots> = (\<Sum>p<N. (of_nat M * X p B) * twiddle (- 1) N j p) * twiddle 1 N A j"
      unfolding sum_distrib_right by (intro sum.cong refl) (simp add: mult_ac)
    finally show ?thesis .
  qed
  have "(\<Sum>j<N. \<Sum>k<M.
            (\<Sum>p<N. \<Sum>q<M. X p q * twiddle (- 1) N j p * twiddle (- 1) M k q)
              * twiddle 1 N A j * twiddle 1 M B k) =
        (\<Sum>j<N. (\<Sum>p<N. (of_nat M * X p B) * twiddle (- 1) N j p) * twiddle 1 N A j)"
    by (simp only: inner)
  also have "\<dots> = of_nat N * (of_nat M * X A B)"
    by (rule inversion_1d [OF N A])
  finally show ?thesis by (simp add: mult_ac)
qed

lemma shift_twice_back:
  fixes n j :: nat
  assumes "even n \<or> n = 1" "j < n"
  shows "((j + (n - n div 2)) mod n + (n - n div 2)) mod n = j"
proof (cases "n = 1")
  case True
  with assms(2) show ?thesis by simp
next
  case False
  with assms(1) have "(n - n div 2) + (n - n div 2) = n" by (auto elim!: evenE)
  then have "j + (n - n div 2) + (n - n div 2) = j + n" by simp
  then have "((j + (n - n div 2)) mod n + (n - n div 2)) mod n = (j + n) mod n"
    by (metis mod_add_left_eq)
  then show ?thesis using assms(2) by simp
qed

lemma shift_twice_forth:
  fixes n j :: nat
  assumes "even n \<or> n = 1" "j < n"
  shows "((j + n div 2) mod n + n div 2) mod n = j"
proof (cases "n = 1")
  case True
  with assms(2) show ?thesis by simp
next
  case False
  with assms(1) have "n div 2 + n div 2 = n" by (auto elim!: evenE)
  then have "j + n div 2 + n div 2 = j + n" by simp
  then have "((j + n div 2) mod n + n div 2) mod n = (j + n) mod n"
    by (metis mod_add_left_eq)
  then show ?thesis using assms(2) by simp
qed

lemma sqrt_scale:
  "complex_of_real (sqrt (real (Nx * Ny))) * complex_of_real (sqrt (real (Nx * Ny))) =
     of_nat Nx * of_nat Ny"
proof -
  have "sqrt (real (Nx * Ny)) * sqrt (real (Nx * Ny)) = real (Nx * Ny)" by simp
  then have "complex_of_real (sqrt (real (Nx * Ny)) * sqrt (real (Nx * Ny))) =
             complex_of_real (real (Nx * Ny))" by (simp only:)
  then show ?thesis by (simp del: real_sqrt_mult_self of_nat_mult add: of_nat_mult [symmetric])
qed

lemma scale_out:
  fixes S :: "nat \<Rightarrow> nat \<Rightarrow> complex"
  shows "(\<Sum>j<N. \<Sum>k<M. (S j k / s) * f j * g k) / s =
         (\<Sum>j<N. \<Sum>k<M. S j k * f j * g k) / (s * s)"
proof -
  have "(\<Sum>j<N. \<Sum>k<M. (S j k / s) * f j * g k) =
        (\<Sum>j<N. \<Sum>k<M. S j k * f j * g k) / s"
    by (simp add: sum_divide_distrib)
  then show ?thesis by simp
qed

text \<open>
  On a tensor whose two transformed axes have even length or length 1,
  \<open>ifft2(fft2(x))\<close> is \<open>x\<close>, in exact arithmetic.
\<close>

theorem ifft2_fft2_even_lengths:
  assumes sh: "shape4 x = (B, Nx, Ny, Nc)"
    and pos: "0 < Nx" "0 < Ny"
    and ex: "even Nx \<or> Nx = 1" and ey: "even Ny \<or> Ny = 1"
  shows "\<exists>y z. fft2 x = Inr y \<and> ifft2 y = Inr z \<and> same4 z x"
proof -
  let ?s = "complex_of_real (sqrt (real (Nx * Ny)))"
  define X where "X i c p q = elem4 x i ((p + Nx div 2) mod Nx) ((q + Ny div 2) mod Ny) c"
    for i c p q
  define y where "y = x\<lparr>elem4 := (\<lambda>i a b c.
      (\<Sum>p<Nx. \<Sum>q<Ny. X i c p q
          * twiddle (- 1) Nx ((a + (Nx - Nx div 2)) mod Nx) p
          * twiddle (- 1) Ny ((b + (Ny - Ny div 2)) mod Ny) q) / ?s)\<rparr>"
  have y: "fft2 x = Inr y"
    unfolding fft2_Inr [OF sh] y_def X_def using pos by simp
  have shy: "shape4 y = (B, Nx, Ny, Nc)" using sh by (simp add: y_def)
  define z where "z = y\<lparr>elem4 := (\<lambda>i a b c.
      (\<Sum>j<Nx. \<Sum>k<Ny.
          elem4 y i ((j + (Nx - Nx div 2)) mod Nx) ((k + (Ny - Ny div 2)) mod Ny) c
          * twiddle 1 Nx ((a + Nx div 2) mod Nx) j
          * twiddle 1 Ny ((b + Ny div 2) mod Ny) k) / ?s)\<rparr>"
  have z: "ifft2 y = Inr z"
    unfolding ifft2_Inr [OF shy] z_def using pos by simp
  have s0: "?s \<noteq> 0" using pos by simp
  have "same4 z x"
  proof (rule same4_I [of _ B Nx Ny Nc])
    show "shape4 z = (B, Nx, Ny, Nc)" using shy by (simp add: z_def)
    show "shape4 x = (B, Nx, Ny, Nc)" by (rule sh)
    fix i a b c assume r: "i < B" "a < Nx" "b < Ny" "c < Nc"
    let ?A = "(a + Nx div 2) mod Nx" and ?B = "(b + Ny div 2) mod Ny"
    have AB: "?A < Nx" "?B < Ny" using pos by simp_all
    have ey': "elem4 y i ((j + (Nx - Nx div 2)) mod Nx) ((k + (Ny - Ny div 2)) mod Ny) c =
        (\<Sum>p<Nx. \<Sum>q<Ny. X i c p q * twiddle (- 1) Nx j p * twiddle (- 1) Ny k q) / ?s"
      if "j \<in> {..<Nx}" "k \<in> {..<Ny}" for j k
      using that shift_twice_back [OF ex, of j] shift_twice_back [OF ey, of k]
      by (simp add: y_def)
    have "elem4 z i a b c =
      (\<Sum>j<Nx. \<Sum>k<Ny.
          elem4 y i ((j + (Nx - Nx div 2)) mod Nx) ((k + (Ny - Ny div 2)) mod Ny) c
          * twiddle 1 Nx ?A j * twiddle 1 Ny ?B k) / ?s"
      by (simp add: z_def)
    also have "\<dots> =
      (\<Sum>j<Nx. \<Sum>k<Ny.
          ((\<Sum>p<Nx. \<Sum>q<Ny. X i c p q * twiddle (- 1) Nx j p * twiddle (- 1) Ny k q) / ?s)
          * twiddle 1 Nx ?A j * twiddle 1 Ny ?B k) / ?s"
      by (intro arg_cong2 [where f = "(/)"] sum.cong refl) (simp only: ey')
    also have "\<dots> =
      (\<Sum>j<Nx. \<Sum>k<Ny.
          (\<Sum>p<Nx. \<Sum>q<Ny. X i c p q * twiddle (- 1) Nx j p * twiddle (- 1) Ny k q)
          * twiddle 1 Nx ?A j * twiddle 1 Ny ?B k) / (?s * ?s)"
      by (rule scale_out)
    also have "\<dots> = (of_nat Nx * of_nat Ny * X i c ?A ?B) / (?s * ?s)"
      by (simp only: inversion_2d [OF pos AB])
    also have "\<dots> = X i c ?A ?B"
      unfolding sqrt_scale using pos by simp
    also have "\<dots> = elem4 x i a b c"
      unfolding X_def using shift_twice_forth [OF ex r(2)] shift_twice_forth [OF ey r(3)]
      by simp
    finally show "elem4 z i a b c = elem4 x i a b c" .
  qed
  with y z show ?thesis by blast
qed

lemma same3_I:
  assumes "shape3 t = (B, Nx, Ny)" "shape3 u = (B, Nx, Ny)"
    and "\<And>i a b. i < B \<Longrightarrow> a < Nx \<Longrightarrow> b < Ny \<Longrightarrow> elem3 t i a b = elem3 u i a b"
  shows "same3 t u"
  using assms by (simp add: same3_def)

text \<open>
  On such shapes, with sensitivity maps whose squared moduli add up to 1 over the coils at
  each pixel, \<open>decode(encode(x, S, None), S)\<close> is \<open>x\<close>.
\<close>

theorem decode_encode_even_lengths:
  assumes x: "shape3 x = (B, Nx, Ny)" and S: "shape4 S = (B, Nx, Ny, Nc)"
    and pos: "0 < Nx" "0 < Ny"
    and ex: "even Nx \<or> Nx = 1" and ey: "even Ny \<or> Ny = 1"
    and orth: "\<And>i a b. i < B \<Longrightarrow> a < Nx \<Longrightarrow> b < Ny \<Longrightarrow>
                 (\<Sum>c<Nc. elem4 S i a b c * cnj (elem4 S i a b c)) = 1"
  shows "\<exists>y d. encode x S None = Inr y \<and> decode y S = Inr d \<and> same3 d x"
proof -
  from coil_images_same4 [OF x S] obtain sx where
    sx: "mul4 S (unsqueeze_last x) = Inr sx" and s: "same4 sx (coil_images x S)" by blast
  have shc: "shape4 (coil_images x S) = (B, Nx, Ny, Nc)" by (simp add: coil_images_def S)
  have shsx: "shape4 sx = (B, Nx, Ny, Nc)" using s shc by (simp add: same4_def)
  from ifft2_fft2_even_lengths [OF shsx pos ex ey] obtain y z where
    y: "fft2 sx = Inr y" and z: "ifft2 y = Inr z" and zs: "same4 z sx" by blast
  have shz: "shape4 z = (B, Nx, Ny, Nc)" using zs shsx by (simp add: same4_def)
  have shS: "shape4 (conj4 S) = (B, Nx, Ny, Nc)" using S by simp
  define w where "w = \<lparr>shape4 = (B, Nx, Ny, Nc),
       elem4 = (\<lambda>i a b c. elem4 z (bidx B i) (bidx Nx a) (bidx Ny b) (bidx Nc c)
                  * elem4 (conj4 S) (bidx B i) (bidx Nx a) (bidx Ny b) (bidx Nc c))\<rparr>"
  have w: "mul4 z (conj4 S) = Inr w"
    unfolding mul4_Inr [OF shz shS] w_def by simp
  have shw: "shape4 w = (B, Nx, Ny, Nc)" by (simp add: w_def)
  have d: "decode y S = Inr (sum_axis3 w)"
    unfolding decode_Inr using z w by blast
  have "same3 (sum_axis3 w) x"
  proof (rule same3_I [of _ B Nx Ny])
    show "shape3 (sum_axis3 w) = (B, Nx, Ny)" by (rule shape3_sum_axis3 [OF shw])
    show "shape3 x = (B, Nx, Ny)" by (rule x)
    fix i a b assume r: "i < B" "a < Nx" "b < Ny"
    have e: "elem4 w i a b c = elem3 x i a b * (elem4 S i a b c * cnj (elem4 S i a b c))"
      if "c \<in> {..<Nc}" for c
    proof -
      from that have c: "c < Nc" by simp
      have "elem4 z i a b c = elem4 sx i a b c"
        by (rule same4_D(2) [OF zs shz r c])
      also have "\<dots> = elem4 (coil_images x S) i a b c"
        by (rule same4_D(2) [OF s shsx r c])
      finally show ?thesis using r c by (simp add: w_def coil_images_def)
    qed
    have "elem3 (sum_axis3 w) i a b = (\<Sum>c<Nc. elem4 w i a b c)"
      by (rule elem3_sum_axis3 [OF shw])
    also have "\<dots> = (\<Sum>c<Nc. elem3 x i a b * (elem4 S i a b c * cnj (elem4 S i a b c)))"
      by (intro sum.cong refl e)
    also have "\<dots> = elem3 x i a b * (\<Sum>c<Nc. elem4 S i a b c * cnj (elem4 S i a b c))"
      by (simp only: sum_distrib_left)
    also have "\<dots> = elem3 x i a b" by (simp only: orth [OF r] mult_1_right)
    finally show "elem3 (sum_axis3 w) i a b = elem3 x i a b" .
  qed
  with sx y d show ?thesis by (auto simp: encode_def)
qed

end
